theory Spec2Isabelle
  imports Main "HOL-Library.Word"
begin

section \<open>JavaScript strings\<close>

text \<open>
  A JavaScript string is a sequence of 16-bit code units. \<open>String.prototype.trim\<close>,
  the regular-expression class \<open>\s\<close>, \<open>length\<close> and \<open>startsWith\<close> all work on code
  units, so the model keeps them: a string is a list of 16-bit words, and an ASCII
  literal of the source is written \<open>js ''...''\<close>.
\<close>

type_synonym code_unit = "16 word"
type_synonym jsstring = "code_unit list"

definition cu :: "char \<Rightarrow> code_unit" where
  "cu c = of_char c"

definition js :: "string \<Rightarrow> jsstring" where
  "js s = map cu s"

text \<open>
  ECMAScript \<open>WhiteSpace\<close> and \<open>LineTerminator\<close> code points: what \<open>trim\<close> strips and
  what \<open>\s\<close> matches (TAB, LF, VT, FF, CR, SP, NBSP, U+1680, U+2000 to U+200A, LS, PS,
  U+202F, U+205F, U+3000, BOM).
\<close>

definition isWhiteSpace :: "code_unit \<Rightarrow> bool" where
  "isWhiteSpace c =
     (c = 0x09 \<or> c = 0x0A \<or> c = 0x0B \<or> c = 0x0C \<or> c = 0x0D \<or> c = 0x20 \<or> c = 0xA0
      \<or> c = 0x1680 \<or> (0x2000 \<le> c \<and> c \<le> 0x200A) \<or> c = 0x2028 \<or> c = 0x2029
      \<or> c = 0x202F \<or> c = 0x205F \<or> c = 0x3000 \<or> c = 0xFEFF)"

text \<open>The class \<open>\d\<close> of a regular expression without the \<open>u\<close> flag: \<open>0\<close> to \<open>9\<close>.\<close>

definition isDigit :: "code_unit \<Rightarrow> bool" where
  "isDigit c = (0x30 \<le> c \<and> c \<le> 0x39)"

definition trim :: "jsstring \<Rightarrow> jsstring" where
  "trim s = rev (dropWhile isWhiteSpace (rev (dropWhile isWhiteSpace s)))"

definition startsWith :: "jsstring \<Rightarrow> jsstring \<Rightarrow> bool" where
  "startsWith s p = (take (length p) s = p)"

text \<open>A string in a condition (\<open>if (value)\<close>, \<open>!value\<close>) is truthy when it is not empty.\<close>

definition truthy :: "jsstring \<Rightarrow> bool" where
  "truthy s = (s \<noteq> [])"

section \<open>Regular expressions\<close>

text \<open>
  The two regular expressions that the source tests use character classes,
  concatenation and \<open>+\<close> only, between the anchors \<open>^\<close> and \<open>$\<close> and without
  flags. They are written as terms of \<open>regex\<close>; \<open>regex_test\<close> is
  \<open>RegExp.prototype.test\<close> for such an anchored expression: it decides whether the
  whole string is in the language. The matcher works by derivatives;
  \<open>regex_test_lang\<close> below relates it to the language of the expression. The third
  regular expression, in \<open>replace\<close>, is a single character class with the flag
  \<open>g\<close>: \<open>replace\<close> removes every character of the class.
\<close>

datatype regex =
    Fail
  | Eps
  | Cls "code_unit \<Rightarrow> bool"
  | Or regex regex
  | Cat regex regex
  | Rep regex

definition OneOrMore :: "regex \<Rightarrow> regex" where
  "OneOrMore r = Cat r (Rep r)"

fun nullable :: "regex \<Rightarrow> bool" where
  "nullable Fail = False"
| "nullable Eps = True"
| "nullable (Cls p) = False"
| "nullable (Or r s) = (nullable r \<or> nullable s)"
| "nullable (Cat r s) = (nullable r \<and> nullable s)"
| "nullable (Rep r) = True"

fun rderiv :: "code_unit \<Rightarrow> regex \<Rightarrow> regex" where
  "rderiv c Fail = Fail"
| "rderiv c Eps = Fail"
| "rderiv c (Cls p) = (if p c then Eps else Fail)"
| "rderiv c (Or r s) = Or (rderiv c r) (rderiv c s)"
| "rderiv c (Cat r s) =
     (if nullable r then Or (Cat (rderiv c r) s) (rderiv c s) else Cat (rderiv c r) s)"
| "rderiv c (Rep r) = Cat (rderiv c r) (Rep r)"

fun regex_test :: "regex \<Rightarrow> jsstring \<Rightarrow> bool" where
  "regex_test r [] = nullable r"
| "regex_test r (c # cs) = regex_test (rderiv c r) cs"

subsection \<open>The language of a regular expression\<close>

definition conc :: "jsstring set \<Rightarrow> jsstring set \<Rightarrow> jsstring set" where
  "conc A B = {u @ v | u v. u \<in> A \<and> v \<in> B}"

inductive_set star :: "jsstring set \<Rightarrow> jsstring set" for A :: "jsstring set" where
  star_nil: "[] \<in> star A"
| star_app: "u \<in> A \<Longrightarrow> v \<in> star A \<Longrightarrow> u @ v \<in> star A"

fun lang :: "regex \<Rightarrow> jsstring set" where
  "lang Fail = {}"
| "lang Eps = {[]}"
| "lang (Cls p) = {[c] | c. p c}"
| "lang (Or r s) = lang r \<union> lang s"
| "lang (Cat r s) = conc (lang r) (lang s)"
| "lang (Rep r) = star (lang r)"

section \<open>Validators\<close>

text \<open>
  \<open>isValidEmail\<close>, \<open>isValidPhone\<close>: the same text in \<open>function.js\<close> and in the second
  script.

  \<^verbatim>\<open>const emailRegex = /^[^\s@]+@[^\s@]+\.[^\s@]+$/;\<close>
\<close>

definition notSpaceAt :: "code_unit \<Rightarrow> bool" where
  "notSpaceAt c = (\<not> (isWhiteSpace c \<or> c = cu CHR ''@''))"

definition emailRegex :: regex where
  "emailRegex =
     Cat (OneOrMore (Cls notSpaceAt))
       (Cat (Cls (\<lambda>c. c = cu CHR ''@''))
         (Cat (OneOrMore (Cls notSpaceAt))
           (Cat (Cls (\<lambda>c. c = cu CHR ''.''))
             (OneOrMore (Cls notSpaceAt)))))"

definition isValidEmail :: "jsstring \<Rightarrow> bool" where
  "isValidEmail email = regex_test emailRegex email"

text \<open>
  \<^verbatim>\<open>const phoneRegex = /^[\d\s\-\(\)\+]+$/;\<close>
  \<^verbatim>\<open>const cleanPhone = phone.replace(/[\s\-\(\)]/g, '');\<close>
  \<^verbatim>\<open>return phoneRegex.test(phone) && cleanPhone.length >= 10;\<close>
\<close>

definition phoneChar :: "code_unit \<Rightarrow> bool" where
  "phoneChar c =
     (isDigit c \<or> isWhiteSpace c \<or> c = cu CHR ''-'' \<or> c = cu CHR ''(''
      \<or> c = cu CHR '')'' \<or> c = cu CHR ''+'')"

definition phoneRegex :: regex where
  "phoneRegex = OneOrMore (Cls phoneChar)"

definition phoneSeparator :: "code_unit \<Rightarrow> bool" where
  "phoneSeparator c =
     (isWhiteSpace c \<or> c = cu CHR ''-'' \<or> c = cu CHR ''('' \<or> c = cu CHR '')'')"

definition cleanPhone :: "jsstring \<Rightarrow> jsstring" where
  "cleanPhone phone = filter (\<lambda>c. \<not> phoneSeparator c) phone"

definition isValidPhone :: "jsstring \<Rightarrow> bool" where
  "isValidPhone phone = (regex_test phoneRegex phone \<and> length (cleanPhone phone) \<ge> 10)"


section \<open>The URL constructor of the platform\<close>

text \<open>
  \<open>isValidURL\<close> calls the platform's \<open>new URL(s)\<close>, which is not code of the
  repository. \<open>isValidURL\<close> therefore takes the constructor as a parameter
  \<open>U\<close>: \<open>U s = None\<close> when \<open>new URL(s)\<close> throws, \<open>Some u\<close> when it returns the URL
  object \<open>u\<close>, of which the source reads \<open>protocol\<close> only. Every general theorem
  about \<open>isValidURL\<close> holds for every \<open>U\<close>.

  For the concrete inputs, \<open>new_URL\<close> models the constructor after the WHATWG URL
  Standard (basic URL parser without a base URL), as far as it decides between
  failure and success and computes the scheme: preprocessing, scheme, the
  authority, host and port states, the file states, the host parser with the
  forbidden code points, and the IPv4 parser. The path, query and fragment states
  never fail and are not modelled. Hosts that need the Unicode ToASCII algorithm, the
  percent-decoder or the IPv6 parser (a non-ASCII code unit, \<open>%\<close>, a label starting
  with \<open>xn--\<close>, a leading \<open>[\<close>) are outside the model: \<open>new_URL\<close> rejects them,
  and no theorem below evaluates it on such an input.
\<close>

record url =
  protocol :: jsstring

definition isAsciiAlpha :: "code_unit \<Rightarrow> bool" where
  "isAsciiAlpha c = ((0x41 \<le> c \<and> c \<le> 0x5A) \<or> (0x61 \<le> c \<and> c \<le> 0x7A))"

definition asciiLower :: "code_unit \<Rightarrow> code_unit" where
  "asciiLower c = (if 0x41 \<le> c \<and> c \<le> 0x5A then c + 0x20 else c)"

definition isC0OrSpace :: "code_unit \<Rightarrow> bool" where
  "isC0OrSpace c = (c \<le> 0x20)"

definition isTabOrNewline :: "code_unit \<Rightarrow> bool" where
  "isTabOrNewline c = (c = 0x09 \<or> c = 0x0A \<or> c = 0x0D)"

text \<open>Leading and trailing C0 controls and spaces are removed, then every tab and newline.\<close>

definition url_preprocess :: "jsstring \<Rightarrow> jsstring" where
  "url_preprocess s =
     filter (\<lambda>c. \<not> isTabOrNewline c)
       (rev (dropWhile isC0OrSpace (rev (dropWhile isC0OrSpace s))))"

definition isSchemeChar :: "code_unit \<Rightarrow> bool" where
  "isSchemeChar c =
     (isAsciiAlpha c \<or> isDigit c \<or> c = cu CHR ''+'' \<or> c = cu CHR ''-'' \<or> c = cu CHR ''.'')"

text \<open>
  Scheme start state and scheme state: an ASCII letter, then letters, digits, \<open>+\<close>,
  \<open>-\<close>, \<open>.\<close>, then \<open>:\<close>. Anything else leads to the no scheme state, which fails
  without a base URL. The result is the lower-cased scheme and the rest of the input.
\<close>

definition split_scheme :: "jsstring \<Rightarrow> (jsstring \<times> jsstring) option" where
  "split_scheme s =
     (case s of
        [] \<Rightarrow> None
      | c # cs \<Rightarrow>
          if \<not> isAsciiAlpha c then None
          else (case dropWhile isSchemeChar cs of
                  [] \<Rightarrow> None
                | d # rest \<Rightarrow>
                    if d = cu CHR '':''
                    then Some (map asciiLower (c # takeWhile isSchemeChar cs), rest)
                    else None))"

definition isSpecialScheme :: "jsstring \<Rightarrow> bool" where
  "isSpecialScheme sch =
     (sch = js ''ftp'' \<or> sch = js ''file'' \<or> sch = js ''http'' \<or> sch = js ''https''
      \<or> sch = js ''ws'' \<or> sch = js ''wss'')"

definition isForbiddenHost :: "code_unit \<Rightarrow> bool" where
  "isForbiddenHost c =
     (c = 0x00 \<or> c = 0x09 \<or> c = 0x0A \<or> c = 0x0D \<or> c = 0x20 \<or> c = cu CHR ''#''
      \<or> c = cu CHR ''/'' \<or> c = cu CHR '':'' \<or> c = cu CHR ''<'' \<or> c = cu CHR ''>''
      \<or> c = cu CHR ''?'' \<or> c = cu CHR ''@'' \<or> c = cu CHR ''['' \<or> c = 0x5C
      \<or> c = cu CHR '']'' \<or> c = cu CHR ''^'' \<or> c = cu CHR ''|'')"

definition isForbiddenDomain :: "code_unit \<Rightarrow> bool" where
  "isForbiddenDomain c = (isForbiddenHost c \<or> c \<le> 0x1F \<or> c = cu CHR ''%'' \<or> c = 0x7F)"

fun splitOn :: "code_unit \<Rightarrow> jsstring \<Rightarrow> jsstring list" where
  "splitOn d [] = [] # []"
| "splitOn d (c # cs) =
     (if c = d then [] # splitOn d cs
      else (case splitOn d cs of [] \<Rightarrow> [c] # [] | p # ps \<Rightarrow> (c # p) # ps))"

definition digitValue :: "code_unit \<Rightarrow> nat" where
  "digitValue c =
     (if isDigit c then unat c - 0x30
      else if 0x41 \<le> c \<and> c \<le> 0x46 then unat c - 0x37
      else unat c - 0x57)"

definition isRadixDigit :: "nat \<Rightarrow> code_unit \<Rightarrow> bool" where
  "isRadixDigit R c =
     (if R = 16 then isDigit c \<or> (0x41 \<le> c \<and> c \<le> 0x46) \<or> (0x61 \<le> c \<and> c \<le> 0x66)
      else if R = 8 then 0x30 \<le> c \<and> c \<le> 0x37
      else isDigit c)"

definition parse_radix :: "nat \<Rightarrow> jsstring \<Rightarrow> nat option" where
  "parse_radix R s =
     (if list_all (isRadixDigit R) s
      then Some (foldl (\<lambda>acc c. acc * R + digitValue c) 0 s)
      else None)"

text \<open>The IPv4 number parser: \<open>0x\<close> selects radix 16, a leading \<open>0\<close> radix 8.\<close>

definition ipv4_number :: "jsstring \<Rightarrow> nat option" where
  "ipv4_number s =
     (if s = [] then None
      else if 2 \<le> length s \<and> (take 2 s = js ''0x'' \<or> take 2 s = js ''0X'')
      then parse_radix 16 (drop 2 s)
      else if 2 \<le> length s \<and> take 1 s = js ''0''
      then parse_radix 8 (drop 1 s)
      else parse_radix 10 s)"

definition ends_in_number :: "jsstring \<Rightarrow> bool" where
  "ends_in_number s =
     (let parts = splitOn (cu CHR ''.'') s in
      if last parts = [] \<and> length parts = 1 then False
      else
        (let parts' = (if last parts = [] then butlast parts else parts);
             l = last parts'
         in (l \<noteq> [] \<and> list_all isDigit l) \<or> (case ipv4_number l of None \<Rightarrow> False | Some n \<Rightarrow> True)))"

definition ipv4_parse :: "jsstring \<Rightarrow> bool" where
  "ipv4_parse s =
     (let parts = splitOn (cu CHR ''.'') s;
          parts' = (if last parts = [] \<and> 1 < length parts then butlast parts else parts);
          numbers = map ipv4_number parts'
      in length parts' \<le> 4
         \<and> list_all (\<lambda>n. n \<noteq> None) numbers
         \<and> list_all (\<lambda>n. the n \<le> 255) (butlast numbers)
         \<and> the (last numbers) < 256 ^ (5 - length numbers))"

definition has_xn_label :: "jsstring \<Rightarrow> bool" where
  "has_xn_label s =
     list_ex (\<lambda>p. map asciiLower (take 4 p) = js ''xn--'') (splitOn (cu CHR ''.'') s)"

text \<open>
  The host parser. An opaque host (of a scheme that is not special) fails on a
  forbidden host code point only. A domain is lower-cased (what domain to ASCII does
  on an ASCII domain without \<open>xn--\<close> labels), must not be empty nor contain a forbidden
  domain code point, and goes to the IPv4 parser when it ends in a number.
\<close>

definition host_parse :: "jsstring \<Rightarrow> bool \<Rightarrow> bool" where
  "host_parse input isOpaque =
     (if take 1 input = js ''['' then False
      else if isOpaque then \<not> list_ex isForbiddenHost input
      else if list_ex (\<lambda>c. 0x80 \<le> c \<or> c = cu CHR ''%'') input \<or> has_xn_label input then False
      else
        (let asciiDomain = map asciiLower input in
         asciiDomain \<noteq> []
         \<and> \<not> list_ex isForbiddenDomain asciiDomain
         \<and> (if ends_in_number asciiDomain then ipv4_parse asciiDomain else True)))"

definition isAuthorityEnd :: "bool \<Rightarrow> code_unit \<Rightarrow> bool" where
  "isAuthorityEnd special c =
     (c = cu CHR ''/'' \<or> c = cu CHR ''?'' \<or> c = cu CHR ''#'' \<or> (special \<and> c = 0x5C))"

text \<open>
  Host state: the buffer runs up to the first \<open>:\<close> outside brackets; what follows the
  \<open>:\<close> is left to the port state.
\<close>

fun split_host :: "bool \<Rightarrow> jsstring \<Rightarrow> jsstring \<times> jsstring option" where
  "split_host insideBrackets [] = ([], None)"
| "split_host insideBrackets (c # cs) =
     (if c = cu CHR '':'' \<and> \<not> insideBrackets then ([], Some cs)
      else
        (let (h, p) = split_host (if c = cu CHR ''['' then True
                                  else if c = cu CHR '']'' then False
                                  else insideBrackets) cs
         in (c # h, p)))"

definition port_ok :: "jsstring \<Rightarrow> bool" where
  "port_ok p =
     (list_all isDigit p
      \<and> (p = [] \<or> foldl (\<lambda>acc c. acc * 10 + digitValue c) 0 p \<le> 65535))"

fun after_last_at :: "jsstring \<Rightarrow> jsstring \<Rightarrow> jsstring" where
  "after_last_at buffer [] = buffer"
| "after_last_at buffer (c # cs) =
     (if c = cu CHR ''@'' then after_last_at [] cs else after_last_at (buffer @ [c]) cs)"

text \<open>
  Authority, host and port states on the input that follows the slashes. The
  authority ends at \<open>/\<close>, \<open>?\<close>, \<open>#\<close> (and at a backslash in a special URL) or at the
  end of the input; credentials end at its last \<open>@\<close>.
\<close>

definition authority_ok :: "bool \<Rightarrow> jsstring \<Rightarrow> bool" where
  "authority_ok special input =
     (let seg = takeWhile (\<lambda>c. \<not> isAuthorityEnd special c) input;
          atSignSeen = list_ex (\<lambda>c. c = cu CHR ''@'') seg;
          buffer = after_last_at [] seg
      in if atSignSeen \<and> buffer = [] then False
         else (case split_host False buffer of
                 (h, Some p) \<Rightarrow> h \<noteq> [] \<and> host_parse h (\<not> special) \<and> port_ok p
               | (h, None) \<Rightarrow>
                   if special \<and> h = [] then False
                   else if h = [] then True
                   else host_parse h (\<not> special)))"

definition isSlash :: "code_unit \<Rightarrow> bool" where
  "isSlash c = (c = cu CHR ''/'' \<or> c = 0x5C)"

definition isWindowsDriveLetter :: "jsstring \<Rightarrow> bool" where
  "isWindowsDriveLetter b =
     (case b of
        [a, d] \<Rightarrow> isAsciiAlpha a \<and> (d = cu CHR '':'' \<or> d = cu CHR ''|'')
      | _ \<Rightarrow> False)"

text \<open>File state, file slash state and file host state, without a base URL.\<close>

definition file_ok :: "jsstring \<Rightarrow> bool" where
  "file_ok rest =
     (case rest of
        c # d # rest' \<Rightarrow>
          if isSlash c \<and> isSlash d
          then (let buffer = takeWhile (\<lambda>x. \<not> (isSlash x \<or> x = cu CHR ''?'' \<or> x = cu CHR ''#'')) rest'
                in isWindowsDriveLetter buffer \<or> buffer = [] \<or> host_parse buffer False)
          else True
      | _ \<Rightarrow> True)"

definition new_URL :: "jsstring \<Rightarrow> url option" where
  "new_URL input =
     (case split_scheme (url_preprocess input) of
        None \<Rightarrow> None
      | Some (sch, rest) \<Rightarrow>
          (let ok =
             (if sch = js ''file'' then file_ok rest
              else if isSpecialScheme sch then authority_ok True (dropWhile isSlash rest)
              else if take 2 rest = js ''//'' then authority_ok False (drop 2 rest)
              else True)
           in if ok then Some \<lparr>protocol = sch @ js '':''\<rparr> else None))"

section \<open>\<open>isValidURL\<close>\<close>

text \<open>
  The same text in both scripts. The model returns, with the result, the strings the
  constructor was called on, in order.
  \<^verbatim>\<open>
  try { const urlObj = new URL(url);
        return urlObj.protocol === 'http:' || urlObj.protocol === 'https:';
  } catch (e) {
      if (!url.startsWith('http')) {
          try { new URL('https://' + url); return true; } catch (e2) { return false; }
      }
      return false;
  }\<close>
\<close>

definition isValidURL_trace :: "(jsstring \<Rightarrow> url option) \<Rightarrow> jsstring \<Rightarrow> bool \<times> jsstring list" where
  "isValidURL_trace U url =
     (case U url of
        Some urlObj \<Rightarrow>
          (protocol urlObj = js ''http:'' \<or> protocol urlObj = js ''https:'', [url])
      | None \<Rightarrow>
          if \<not> startsWith url (js ''http'')
          then (case U (js ''https://'' @ url) of
                  Some urlObj2 \<Rightarrow> (True, [url, js ''https://'' @ url])
                | None \<Rightarrow> (False, [url, js ''https://'' @ url]))
          else (False, [url]))"

definition isValidURL :: "(jsstring \<Rightarrow> url option) \<Rightarrow> jsstring \<Rightarrow> bool" where
  "isValidURL U url = fst (isValidURL_trace U url)"


section \<open>The form in the document\<close>

text \<open>
  The scripts read and write the document through a few accesses only, and the model
  of the document has what these accesses see.
  \<^item> \<open>form.querySelector('[name="n"]')\<close> is \<open>elements frm n\<close>: the first element of the
    form with that name, \<open>None\<close> for \<open>null\<close>. The elements are form controls, with a
    string \<open>value\<close>. Elements with different names are different elements.
  \<^item> \<open>field.parentElement.querySelector('.error-message')\<close> searches the descendants
    of the field's parent in document order. \<open>layout frm\<close> is the tree of the form
    as far as this search sees it: the elements of class \<open>error-message\<close> with
    their text, and the other elements that have children, in document order. The
    root is the form element. An element is named by its path from the root (the
    index of the child to take at each level); \<open>parent\<close> of a field is the path of
    its parent element. An element of class \<open>error-message\<close> holds text only, so
    that writing its \<open>textContent\<close> removes no element, and a form control is not
    of class \<open>error-message\<close>.
  A function of the source that mutates a field takes the field and the tree and
  returns both; its caller stores the field back with \<open>store_field\<close>.
\<close>

type_synonym path = "nat list"

datatype node = Message jsstring | Group "node list"

fun subtree :: "node \<Rightarrow> path \<Rightarrow> node option" where
  "subtree n [] = Some n"
| "subtree (Group cs) (i # p) = (if i < length cs then subtree (cs ! i) p else None)"
| "subtree (Message t) (i # p) = None"

text \<open>
  The first element of class \<open>error-message\<close> in document order: in a node, and in the
  children of a node from the index \<open>i\<close> of the first of them on.
\<close>

fun first_message :: "node \<Rightarrow> path option"
  and first_message_from :: "nat \<Rightarrow> node list \<Rightarrow> path option" where
  "first_message (Message t) = Some []"
| "first_message (Group cs) = first_message_from 0 cs"
| "first_message_from i [] = None"
| "first_message_from i (c # cs) =
     (case first_message c of Some q \<Rightarrow> Some (i # q) | None \<Rightarrow> first_message_from (Suc i) cs)"

text \<open>\<open>querySelector('.error-message')\<close> on the element at the path \<open>p\<close>.\<close>

definition errorElement :: "node \<Rightarrow> path \<Rightarrow> path option" where
  "errorElement doc p =
     (case subtree doc p of
        Some (Group cs) \<Rightarrow> map_option (\<lambda>q. p @ q) (first_message (Group cs))
      | _ \<Rightarrow> None)"

text \<open>Writing \<open>textContent\<close> of the element at a path; reading it.\<close>

fun set_text :: "node \<Rightarrow> path \<Rightarrow> jsstring \<Rightarrow> node" where
  "set_text (Message t) [] m = Message m"
| "set_text (Group cs) [] m = Group cs"
| "set_text (Group cs) (i # p) m =
     (if i < length cs then Group (cs[i := set_text (cs ! i) p m]) else Group cs)"
| "set_text (Message t) (i # p) m = Message t"

definition text_at :: "node \<Rightarrow> path \<Rightarrow> jsstring option" where
  "text_at doc q = (case subtree doc q of Some (Message t) \<Rightarrow> Some t | _ \<Rightarrow> None)"

text \<open>
  \<open>appendChild\<close> on the element at a path: the new node becomes its last child, at
  the path \<open>new_child\<close>.
\<close>

fun append_child :: "node \<Rightarrow> path \<Rightarrow> node \<Rightarrow> node" where
  "append_child (Group cs) [] c = Group (cs @ [c])"
| "append_child (Message t) [] c = Message t"
| "append_child (Group cs) (i # p) c =
     (if i < length cs then Group (cs[i := append_child (cs ! i) p c]) else Group cs)"
| "append_child (Message t) (i # p) c = Message t"

definition new_child :: "node \<Rightarrow> path \<Rightarrow> path option" where
  "new_child doc p =
     (case subtree doc p of Some (Group cs) \<Rightarrow> Some (p @ [length cs]) | _ \<Rightarrow> None)"

definition is_group :: "node \<Rightarrow> path \<Rightarrow> bool" where
  "is_group doc p = (case subtree doc p of Some (Group cs) \<Rightarrow> True | _ \<Rightarrow> False)"

record field =
  fvalue :: jsstring
  classList :: "jsstring list"
  parent :: path
  borderColor :: jsstring
  backgroundColor :: jsstring

record form =
  elements :: "jsstring \<Rightarrow> field option"
  layout :: node

definition store_field :: "jsstring \<Rightarrow> field \<times> node \<Rightarrow> form \<Rightarrow> form" where
  "store_field n r frm = frm\<lparr>elements := (elements frm)(n \<mapsto> fst r), layout := snd r\<rparr>"

text \<open>\<open>DOMTokenList\<close>: \<open>add\<close> appends a token that is absent, \<open>remove\<close> removes it.\<close>

definition classList_add :: "jsstring list \<Rightarrow> jsstring \<Rightarrow> jsstring list" where
  "classList_add cl t = (if t \<in> set cl then cl else cl @ [t])"

definition classList_remove :: "jsstring list \<Rightarrow> jsstring \<Rightarrow> jsstring list" where
  "classList_remove cl t = removeAll t cl"

definition classList_contains :: "jsstring list \<Rightarrow> jsstring \<Rightarrow> bool" where
  "classList_contains cl t = (t \<in> set cl)"

text \<open>
  \<^verbatim>\<open>const errorSpan = field.parentElement.querySelector('.error-message');\<close>
  \<^verbatim>\<open>if (errorSpan) { errorSpan.textContent = message; }\<close>
\<close>

definition set_errorSpan :: "node \<Rightarrow> path \<Rightarrow> jsstring \<Rightarrow> node" where
  "set_errorSpan doc p message =
     (case errorElement doc p of None \<Rightarrow> doc | Some q \<Rightarrow> set_text doc q message)"

text \<open>
  The model of \<open>validateForm\<close> records each write to an error element: the name of
  the field it was made for, the element written and the text. \<open>errorSpan_write\<close>
  is the record of \<open>set_errorSpan\<close>.
\<close>

type_synonym span_write = "jsstring \<times> path \<times> jsstring"

definition write_name :: "span_write \<Rightarrow> jsstring" where
  "write_name w = fst w"

definition write_target :: "span_write \<Rightarrow> path" where
  "write_target w = fst (snd w)"

definition write_text :: "span_write \<Rightarrow> jsstring" where
  "write_text w = snd (snd w)"

definition errorSpan_write :: "jsstring \<Rightarrow> node \<Rightarrow> path \<Rightarrow> jsstring \<Rightarrow> span_write list" where
  "errorSpan_write n doc p message =
     (case errorElement doc p of None \<Rightarrow> [] | Some q \<Rightarrow> [(n, q, message)])"

section \<open>\<open>function.js\<close>: field state, form validation, submit handler\<close>

definition setFieldError :: "field \<Rightarrow> jsstring \<Rightarrow> node \<Rightarrow> field \<times> node" where
  "setFieldError fld message sp =
     (fld\<lparr>classList := classList_remove (classList_add (classList fld) (js ''invalid'')) (js ''valid'')\<rparr>,
      set_errorSpan sp (parent fld) message)"

definition clearFieldError :: "field \<Rightarrow> node \<Rightarrow> field \<times> node" where
  "clearFieldError fld sp =
     (let cl = classList_remove (classList fld) (js ''invalid'') in
      (fld\<lparr>classList := (if truthy (trim (fvalue fld)) then classList_add cl (js ''valid'')
                           else classList_remove cl (js ''valid''))\<rparr>,
       set_errorSpan sp (parent fld) []))"

text \<open>
  The two calls as \<open>validateForm\<close> makes them, on the element named \<open>n\<close> of the form:
  the field is stored back and the write is recorded.
\<close>

definition set_error ::
  "jsstring \<Rightarrow> field \<Rightarrow> jsstring \<Rightarrow> form \<times> span_write list \<Rightarrow> form \<times> span_write list" where
  "set_error n input message fw =
     (store_field n (setFieldError input message (layout (fst fw))) (fst fw),
      snd fw @ errorSpan_write n (layout (fst fw)) (parent input) message)"

definition clear_error :: "jsstring \<Rightarrow> field \<Rightarrow> form \<times> span_write list \<Rightarrow> form \<times> span_write list" where
  "clear_error n input fw =
     (store_field n (clearFieldError input (layout (fst fw))) (fst fw),
      snd fw @ errorSpan_write n (layout (fst fw)) (parent input) [])"

record required_field =
  rname :: jsstring
  rlabel :: jsstring
  rtype :: jsstring

definition requiredFields :: "required_field list" where
  "requiredFields =
     [\<lparr>rname = js ''first_name'', rlabel = js ''First Name'', rtype = js ''text''\<rparr>,
      \<lparr>rname = js ''last_name'', rlabel = js ''Last Name'', rtype = js ''text''\<rparr>,
      \<lparr>rname = js ''email'', rlabel = js ''Email'', rtype = js ''email''\<rparr>,
      \<lparr>rname = js ''company'', rlabel = js ''Company'', rtype = js ''text''\<rparr>]"

text \<open>
  The state of \<open>validateForm\<close>: \<open>isValid\<close>, the form, and the writes made so far.
  \<open>required_step\<close> is the body of \<open>requiredFields.forEach\<close>.
\<close>

type_synonym vstate = "bool \<times> form \<times> span_write list"

definition form_of :: "vstate \<Rightarrow> form" where
  "form_of st = fst (snd st)"

definition writes_of :: "vstate \<Rightarrow> span_write list" where
  "writes_of st = snd (snd st)"

definition required_step :: "required_field \<Rightarrow> vstate \<Rightarrow> vstate" where
  "required_step rf st =
     (case elements (form_of st) (rname rf) of
        None \<Rightarrow> st
      | Some input \<Rightarrow>
          (let val = trim (fvalue input) in
           if \<not> truthy val
           then (False, set_error (rname rf) input (rlabel rf @ js '' is required'') (snd st))
           else if rtype rf = js ''email'' \<and> \<not> isValidEmail val
           then (False, set_error (rname rf) input (js ''Please enter a valid email address'') (snd st))
           else (fst st, clear_error (rname rf) input (snd st))))"

definition phoneFields :: "jsstring list" where
  "phoneFields = [js ''phone'', js ''mobile'']"

definition phone_step :: "jsstring \<Rightarrow> vstate \<Rightarrow> vstate" where
  "phone_step fieldName st =
     (case elements (form_of st) fieldName of
        None \<Rightarrow> st
      | Some input \<Rightarrow>
          (let val = trim (fvalue input) in
           if truthy val \<and> \<not> isValidPhone val
           then (False, set_error fieldName input (js ''Please enter a valid phone number'') (snd st))
           else if truthy val \<or> classList_contains (classList input) (js ''invalid'')
           then (fst st, clear_error fieldName input (snd st))
           else st))"

definition url_step :: "(jsstring \<Rightarrow> url option) \<Rightarrow> vstate \<Rightarrow> vstate" where
  "url_step U st =
     (case elements (form_of st) (js ''url'') of
        None \<Rightarrow> st
      | Some urlInput \<Rightarrow>
          (let val = trim (fvalue urlInput) in
           if truthy val \<and> \<not> isValidURL U val
           then (False, set_error (js ''url'') urlInput (js ''Please enter a valid website URL'') (snd st))
           else if truthy val \<or> classList_contains (classList urlInput) (js ''invalid'')
           then (fst st, clear_error (js ''url'') urlInput (snd st))
           else st))"

text \<open>
  \<open>validateForm\<close> of \<open>function.js\<close>: its result, the form as it leaves it, and the
  writes it made to error elements, in order.
\<close>

definition validateForm :: "(jsstring \<Rightarrow> url option) \<Rightarrow> form \<Rightarrow> vstate" where
  "validateForm U frm =
     url_step U (fold phone_step phoneFields (fold required_step requiredFields (True, frm, [])))"

text \<open>
  The element \<open>#form-messages\<close> and the button \<open>.btn-submit\<close> with its parts
  \<open>.btn-text\<close> and \<open>.btn-loader\<close> (their \<open>style.display\<close>, \<open>None\<close> when absent).
\<close>

record message_box =
  textContent :: jsstring
  className :: jsstring
  display :: jsstring

record button =
  btnClassList :: "jsstring list"
  disabled :: bool
  btnText :: "jsstring option"
  btnLoader :: "jsstring option"

record page =
  theForm :: form
  formMessages :: "message_box option"
  submitButton :: "button option"

definition showMessage :: "message_box \<Rightarrow> jsstring \<Rightarrow> jsstring \<Rightarrow> message_box" where
  "showMessage messageElement type message =
     messageElement\<lparr>textContent := message, className := js ''form-messages '' @ type,
                    display := js ''block''\<rparr>"

definition hideMessage :: "message_box \<Rightarrow> message_box" where
  "hideMessage messageElement =
     messageElement\<lparr>display := js ''none'', textContent := [], className := js ''form-messages''\<rparr>"

definition setLoadingState :: "button \<Rightarrow> bool \<Rightarrow> button" where
  "setLoadingState btn isLoading =
     (if isLoading
      then btn\<lparr>btnClassList := classList_add (btnClassList btn) (js ''loading''), disabled := True,
               btnText := map_option (\<lambda>d. js ''none'') (btnText btn),
               btnLoader := map_option (\<lambda>d. js ''inline-flex'') (btnLoader btn)\<rparr>
      else btn\<lparr>btnClassList := classList_remove (btnClassList btn) (js ''loading''), disabled := False,
               btnText := map_option (\<lambda>d. js ''inline-block'') (btnText btn),
               btnLoader := map_option (\<lambda>d. js ''none'') (btnLoader btn)\<rparr>)"

text \<open>
  A submit event; \<open>preventDefault\<close> sets \<open>defaultPrevented\<close> (a submit event is
  cancelable), and the form is posted when the flag is still unset after the
  listeners have run.
\<close>

record event =
  defaultPrevented :: bool

definition preventDefault :: "event \<Rightarrow> event" where
  "preventDefault e = e\<lparr>defaultPrevented := True\<rparr>"

text \<open>
  \<open>handleFormSubmit\<close>: the value returned, the event and the page afterwards.
  Scrolling to the first element of class \<open>invalid\<close> and focusing it leave the event
  and the modelled part of the page as they are.
\<close>

definition handleFormSubmit :: "(jsstring \<Rightarrow> url option) \<Rightarrow> event \<Rightarrow> page \<Rightarrow> bool \<times> event \<times> page" where
  "handleFormSubmit U e pg =
     (let hidden = map_option hideMessage (formMessages pg);
          r = validateForm U (theForm pg)
      in if \<not> fst r
         then (False, preventDefault e,
               pg\<lparr>theForm := form_of r,
                  formMessages := map_option (\<lambda>m. showMessage m (js ''error'')
                     (js ''Please correct the errors below and try again.'')) hidden\<rparr>)
         else (True, e,
               pg\<lparr>theForm := form_of r, formMessages := hidden,
                  submitButton := map_option (\<lambda>b. setLoadingState b True) (submitButton pg)\<rparr>))"

section \<open>The second script: inline styles\<close>

text \<open>
  The second script marks a field through \<open>style.borderColor\<close> and
  \<open>style.backgroundColor\<close>. \<open>markInvalid\<close> looks for the error element as
  \<open>function.js\<close> does and, when there is none, creates one and appends it to the
  field's parent. Its functions of the same name as in \<open>function.js\<close> carry the
  suffix \<open>_inline\<close>.
\<close>

definition markInvalid :: "field \<Rightarrow> jsstring \<Rightarrow> node \<Rightarrow> field \<times> node" where
  "markInvalid input message doc =
     (input\<lparr>borderColor := js ''#dc3545'', backgroundColor := js ''#fff5f5''\<rparr>,
      (case errorElement doc (parent input) of
         None \<Rightarrow> append_child doc (parent input) (Message message)
       | Some q \<Rightarrow> set_text doc q message))"

definition markInvalid_write :: "jsstring \<Rightarrow> node \<Rightarrow> path \<Rightarrow> jsstring \<Rightarrow> span_write list" where
  "markInvalid_write n doc p message =
     (case errorElement doc p of
        None \<Rightarrow> (case new_child doc p of None \<Rightarrow> [] | Some q \<Rightarrow> [(n, q, message)])
      | Some q \<Rightarrow> [(n, q, message)])"

definition markValid :: "field \<Rightarrow> node \<Rightarrow> field \<times> node" where
  "markValid input doc =
     (input\<lparr>borderColor := js ''#28a745'', backgroundColor := js ''#ffffff''\<rparr>,
      set_errorSpan doc (parent input) [])"

definition mark_invalid ::
  "jsstring \<Rightarrow> field \<Rightarrow> jsstring \<Rightarrow> form \<times> span_write list \<Rightarrow> form \<times> span_write list" where
  "mark_invalid n input message fw =
     (store_field n (markInvalid input message (layout (fst fw))) (fst fw),
      snd fw @ markInvalid_write n (layout (fst fw)) (parent input) message)"

definition mark_valid :: "jsstring \<Rightarrow> field \<Rightarrow> form \<times> span_write list \<Rightarrow> form \<times> span_write list" where
  "mark_valid n input fw =
     (store_field n (markValid input (layout (fst fw))) (fst fw),
      snd fw @ errorSpan_write n (layout (fst fw)) (parent input) [])"

definition requiredFields_inline :: "(jsstring \<times> jsstring) list" where
  "requiredFields_inline =
     [(js ''first_name'', js ''First Name''), (js ''last_name'', js ''Last Name''),
      (js ''email'', js ''Email''), (js ''company'', js ''Company'')]"

definition required_step_inline :: "jsstring \<times> jsstring \<Rightarrow> vstate \<Rightarrow> vstate" where
  "required_step_inline rf st =
     (case elements (form_of st) (fst rf) of
        None \<Rightarrow> st
      | Some input \<Rightarrow>
          if \<not> truthy (trim (fvalue input))
          then (False, mark_invalid (fst rf) input (snd rf @ js '' is required'') (snd st))
          else (fst st, mark_valid (fst rf) input (snd st)))"

text \<open>
  The checks of \<open>email\<close>, \<open>phone\<close>, \<open>mobile\<close> and \<open>url\<close>: the field is marked when it
  is present, its trimmed value is not empty and the validator rejects the value (not
  trimmed).
\<close>

definition format_step_inline ::
  "jsstring \<Rightarrow> (jsstring \<Rightarrow> bool) \<Rightarrow> jsstring \<Rightarrow> vstate \<Rightarrow> vstate" where
  "format_step_inline n valid message st =
     (case elements (form_of st) n of
        None \<Rightarrow> st
      | Some input \<Rightarrow>
          if truthy (trim (fvalue input)) \<and> \<not> valid (fvalue input)
          then (False, mark_invalid n input message (snd st))
          else st)"

definition validateForm_inline :: "(jsstring \<Rightarrow> url option) \<Rightarrow> form \<Rightarrow> vstate" where
  "validateForm_inline U frm =
     format_step_inline (js ''url'') (isValidURL U) (js ''Please enter a valid website URL'')
       (format_step_inline (js ''mobile'') isValidPhone (js ''Please enter a valid mobile number'')
         (format_step_inline (js ''phone'') isValidPhone (js ''Please enter a valid phone number'')
           (format_step_inline (js ''email'') isValidEmail (js ''Please enter a valid email address'')
             (fold required_step_inline requiredFields_inline (True, frm, [])))))"

text \<open>The submit listener of the second script: the value returned, the event, the form.\<close>

definition submitListener :: "(jsstring \<Rightarrow> url option) \<Rightarrow> event \<Rightarrow> form \<Rightarrow> bool \<times> event \<times> form" where
  "submitListener U e frm =
     (let r = validateForm_inline U frm in
      if \<not> fst r then (False, preventDefault e, form_of r) else (True, e, form_of r))"

section \<open>\<open>debounce\<close> and the timers of the platform\<close>

text \<open>
  \<open>debounce(func, wait)\<close> keeps one variable \<open>timeout\<close>; the function it returns
  clears the timer that \<open>timeout\<close> names and sets a new one, whose callback \<open>later\<close>
  resets \<open>timeout\<close> to \<open>null\<close> and calls \<open>func\<close>. The platform is a clock in
  milliseconds and the pending timers, each with its identifier and the time from
  which it may fire. \<open>calls\<close> lists the times at which \<open>func\<close> was called. In
  \<open>initializeForm\<close>, \<open>func\<close> validates the email field when its value is not empty,
  and \<open>wait\<close> is 500.
\<close>

record sched =
  now :: nat
  pending :: "(nat \<times> nat) list"
  next_id :: nat
  timeout :: "nat option"
  calls :: "nat list"

definition clearTimeout :: "nat option \<Rightarrow> sched \<Rightarrow> sched" where
  "clearTimeout h s =
     (case h of None \<Rightarrow> s | Some i \<Rightarrow> s\<lparr>pending := filter (\<lambda>t. fst t \<noteq> i) (pending s)\<rparr>)"

definition setTimeout :: "nat \<Rightarrow> sched \<Rightarrow> nat \<times> sched" where
  "setTimeout wait s =
     (next_id s, s\<lparr>pending := pending s @ [(next_id s, now s + wait)], next_id := next_id s + 1\<rparr>)"

definition executedFunction :: "nat \<Rightarrow> sched \<Rightarrow> sched" where
  "executedFunction wait s =
     (let r = setTimeout wait (clearTimeout (timeout s) s) in (snd r)\<lparr>timeout := Some (fst r)\<rparr>)"

definition later :: "sched \<Rightarrow> sched" where
  "later s = s\<lparr>timeout := None, calls := calls s @ [now s]\<rparr>"

text \<open>
  What happens on the page: an input event on the email field at a time, or a
  pending timer firing at a time, not before it is due. A step that the platform
  cannot take gives \<open>None\<close>.
\<close>

datatype action = Input nat | Fire nat nat

definition step :: "action \<Rightarrow> sched \<Rightarrow> sched option" where
  "step a s =
     (case a of
        Input t \<Rightarrow> if t < now s then None else Some (executedFunction 500 (s\<lparr>now := t\<rparr>))
      | Fire i t \<Rightarrow>
          (case map_of (pending s) i of
             None \<Rightarrow> None
           | Some due \<Rightarrow>
               if t < now s \<or> t < due then None
               else Some (later (s\<lparr>now := t, pending := filter (\<lambda>p. fst p \<noteq> i) (pending s)\<rparr>))))"

fun run :: "action list \<Rightarrow> sched \<Rightarrow> sched option" where
  "run [] s = Some s"
| "run (a # as) s = (case step a s of None \<Rightarrow> None | Some s' \<Rightarrow> run as s')"

definition sched0 :: sched where
  "sched0 = \<lparr>now = 0, pending = [], next_id = 0, timeout = None, calls = []\<rparr>"


section \<open>Sequences of field-state updates\<close>

text \<open>The two state-update operations of \<open>function.js\<close>, applied to a field in any order.\<close>

datatype field_op = SetFieldError jsstring | ClearFieldError

fun apply_op :: "field_op \<Rightarrow> field \<times> node \<Rightarrow> field \<times> node" where
  "apply_op (SetFieldError message) st = setFieldError (fst st) message (snd st)"
| "apply_op ClearFieldError st = clearFieldError (fst st) (snd st)"

section \<open>The writes to error elements\<close>

text \<open>
  Among the writes of a run of \<open>validateForm\<close>: the first one made for the field
  named \<open>n\<close>, and the writes made after it.
\<close>

definition first_write :: "jsstring \<Rightarrow> span_write list \<Rightarrow> span_write option" where
  "first_write n ws = find (\<lambda>w. write_name w = n) ws"

definition later_writes :: "jsstring \<Rightarrow> span_write list \<Rightarrow> span_write list" where
  "later_writes n ws = drop 1 (dropWhile (\<lambda>w. write_name w \<noteq> n) ws)"

section \<open>Notions used in the proofs\<close>

text \<open>
  The text of the last write to an element, and what it means for a tree \<open>doc'\<close> to
  come from \<open>doc\<close> by the writes \<open>ws\<close>: an element reads what was last written to it,
  or what it read in \<open>doc\<close> when nothing was written to it.
\<close>

definition last_write :: "span_write list \<Rightarrow> path \<Rightarrow> jsstring option" where
  "last_write ws q =
     (case filter (\<lambda>w. write_target w = q) ws of [] \<Rightarrow> None | x # xs \<Rightarrow> Some (write_text (last (x # xs))))"

definition texts_follow :: "node \<Rightarrow> span_write list \<Rightarrow> node \<Rightarrow> bool" where
  "texts_follow doc ws doc' =
     (\<forall>q. text_at doc' q = (case last_write ws q of None \<Rightarrow> text_at doc q | Some t \<Rightarrow> Some t))"

text \<open>
  A validation step is local to the name \<open>m\<close> when it never sets \<open>isValid\<close> back to
  true, changes no element of another name, records writes for \<open>m\<close> only, changes
  the texts as these writes say, and keeps every element that has children. It is
  static when it changes no result of a search for an error element.
\<close>

definition local_step :: "jsstring \<Rightarrow> (vstate \<Rightarrow> vstate) \<Rightarrow> bool" where
  "local_step m g =
     (\<forall>st. (\<not> fst st \<longrightarrow> \<not> fst (g st))
        \<and> (\<forall>k. k \<noteq> m \<longrightarrow> elements (form_of (g st)) k = elements (form_of st) k)
        \<and> (\<exists>es. writes_of (g st) = writes_of st @ es
              \<and> list_all (\<lambda>w. write_name w = m) es
              \<and> texts_follow (layout (form_of st)) es (layout (form_of (g st))))
        \<and> (\<forall>p. is_group (layout (form_of st)) p \<longrightarrow> is_group (layout (form_of (g st))) p))"

definition static_step :: "(vstate \<Rightarrow> vstate) \<Rightarrow> bool" where
  "static_step g =
     (\<forall>st p. errorElement (layout (form_of (g st))) p = errorElement (layout (form_of st)) p)"

text \<open>
  What holds of the state of a run that started from the form \<open>frm\<close>, before the
  step of the field named \<open>n\<close>: the field is as it was, nothing was written for it,
  the texts follow the writes, and the elements with children are still there.
\<close>

definition before_step :: "form \<Rightarrow> jsstring \<Rightarrow> field \<Rightarrow> vstate \<Rightarrow> bool" where
  "before_step frm n input st =
     (elements (form_of st) n = Some input
      \<and> list_all (\<lambda>w. write_name w \<noteq> n) (writes_of st)
      \<and> texts_follow (layout frm) (writes_of st) (layout (form_of st))
      \<and> (\<forall>p. is_group (layout frm) p \<longrightarrow> is_group (layout (form_of st)) p))"

text \<open>
  And after that step: \<open>isValid\<close> is false, the field is \<open>tgt\<close>, the writes are those
  made before, which are not for \<open>n\<close>, then \<open>ws\<close>, then others, and the texts follow
  the writes.
\<close>

definition after_step :: "form \<Rightarrow> jsstring \<Rightarrow> field \<Rightarrow> span_write list \<Rightarrow> vstate \<Rightarrow> bool" where
  "after_step frm n tgt ws st =
     (\<not> fst st
      \<and> elements (form_of st) n = Some tgt
      \<and> (\<exists>pre post. writes_of st = pre @ ws @ post \<and> list_all (\<lambda>w. write_name w \<noteq> n) pre
            \<and> (ws = [] \<longrightarrow> list_all (\<lambda>w. write_name w \<noteq> n) post))
      \<and> texts_follow (layout frm) (writes_of st) (layout (form_of st)))"

text \<open>The same for the calls that a step makes on the form and the writes.\<close>

definition local_op :: "jsstring \<Rightarrow> (form \<times> span_write list \<Rightarrow> form \<times> span_write list) \<Rightarrow> bool" where
  "local_op m h =
     (\<forall>fw. (\<forall>k. k \<noteq> m \<longrightarrow> elements (fst (h fw)) k = elements (fst fw) k)
        \<and> (\<exists>es. snd (h fw) = snd fw @ es
              \<and> list_all (\<lambda>w. write_name w = m) es
              \<and> texts_follow (layout (fst fw)) es (layout (fst (h fw))))
        \<and> (\<forall>p. is_group (layout (fst fw)) p \<longrightarrow> is_group (layout (fst (h fw))) p))"

definition static_op :: "(form \<times> span_write list \<Rightarrow> form \<times> span_write list) \<Rightarrow> bool" where
  "static_op h = (\<forall>fw p. errorElement (layout (fst (h fw))) p = errorElement (layout (fst fw)) p)"

text \<open>
  For the timers: the time at which an action calls \<open>func\<close>, and the invariant that
  the only timer that can be pending is the one that \<open>timeout\<close> names.
\<close>

definition fire_time :: "action \<Rightarrow> nat list" where
  "fire_time a = (case a of Input t \<Rightarrow> [] | Fire i t \<Rightarrow> [t])"

definition one_timer :: "sched \<Rightarrow> bool" where
  "one_timer s =
     (case timeout s of
        None \<Rightarrow> pending s = []
      | Some i \<Rightarrow> (case pending s of [p] \<Rightarrow> fst p = i | _ \<Rightarrow> False))"

section \<open>Example forms\<close>

text \<open>
  A text field without classes and styles, and four forms. In the first, a blank
  first name lies directly under the form, which has no error element. In the second,
  the blank first name lies directly under the form and the last name in a \<open>div\<close>
  with the only error element: the search from the form finds that element too. In
  the third, each of the two fields lies in a \<open>div\<close> of its own with an error
  element. In the fourth, the four required fields are filled in, each in its \<open>div\<close>.
\<close>

definition text_field :: "string \<Rightarrow> path \<Rightarrow> field" where
  "text_field v p =
     \<lparr>fvalue = js v, classList = [], parent = p, borderColor = [], backgroundColor = []\<rparr>"

definition form_without_error_element :: form where
  "form_without_error_element =
     \<lparr>elements = [js ''first_name'' \<mapsto> text_field ''  '' []], layout = Group []\<rparr>"

definition form_shared_error_element :: form where
  "form_shared_error_element =
     \<lparr>elements = [js ''first_name'' \<mapsto> text_field ''  '' [],
                  js ''last_name'' \<mapsto> text_field ''Smith'' [0]],
      layout = Group [Group [Message []]]\<rparr>"

definition form_own_error_elements :: form where
  "form_own_error_elements =
     \<lparr>elements = [js ''first_name'' \<mapsto> text_field ''  '' [0],
                  js ''last_name'' \<mapsto> text_field ''Smith'' [1]],
      layout = Group [Group [Message []], Group [Message []]]\<rparr>"

definition form_filled_in :: form where
  "form_filled_in =
     \<lparr>elements = [js ''first_name'' \<mapsto> text_field ''Ada'' [0],
                  js ''last_name'' \<mapsto> text_field ''Smith'' [1],
                  js ''email'' \<mapsto> text_field ''a@b.co'' [2],
                  js ''company'' \<mapsto> text_field ''Acme'' [3]],
      layout = Group [Group [Message []], Group [Message []], Group [Message []],
                      Group [Message []]]\<rparr>"

definition page_of :: "form \<Rightarrow> page" where
  "page_of frm =
     \<lparr>theForm = frm,
      formMessages = Some \<lparr>textContent = [], className = js ''form-messages'', display = js ''none''\<rparr>,
      submitButton = Some \<lparr>btnClassList = [js ''btn-submit''], disabled = False,
                           btnText = Some [], btnLoader = Some (js ''none'')\<rparr>\<rparr>"

definition fresh_event :: event where
  "fresh_event = \<lparr>defaultPrevented = False\<rparr>"

section \<open>The regular-expression matcher decides the language\<close>

lemma nil_in_conc: "[] \<in> conc A B \<longleftrightarrow> [] \<in> A \<and> [] \<in> B"
  by (auto simp: conc_def)

lemma in_conc_iff: "w \<in> conc A B \<longleftrightarrow> (\<exists>u v. w = u @ v \<and> u \<in> A \<and> v \<in> B)"
  by (auto simp: conc_def)

lemma cons_in_conc:
  "c # w \<in> conc A B \<longleftrightarrow>
     ([] \<in> A \<and> c # w \<in> B) \<or> (\<exists>u v. w = u @ v \<and> c # u \<in> A \<and> v \<in> B)"
proof
  assume "c # w \<in> conc A B"
  then obtain u v where uv: "c # w = u @ v" "u \<in> A" "v \<in> B"
    by (auto simp: conc_def)
  show "([] \<in> A \<and> c # w \<in> B) \<or> (\<exists>u v. w = u @ v \<and> c # u \<in> A \<and> v \<in> B)"
  proof (cases u)
    case Nil
    with uv show ?thesis by simp
  next
    case (Cons a u')
    with uv have "w = u' @ v" "c # u' \<in> A" by auto
    with uv show ?thesis by blast
  qed
next
  assume "([] \<in> A \<and> c # w \<in> B) \<or> (\<exists>u v. w = u @ v \<and> c # u \<in> A \<and> v \<in> B)"
  then show "c # w \<in> conc A B"
  proof
    assume "[] \<in> A \<and> c # w \<in> B"
    then have "[] @ (c # w) \<in> conc A B" unfolding conc_def by blast
    then show ?thesis by simp
  next
    assume "\<exists>u v. w = u @ v \<and> c # u \<in> A \<and> v \<in> B"
    then obtain u v where "w = u @ v" "c # u \<in> A" "v \<in> B" by blast
    then have "(c # u) @ v \<in> conc A B" unfolding conc_def by blast
    with \<open>w = u @ v\<close> show ?thesis by simp
  qed
qed

lemma star_cons_split:
  "x \<in> star A \<Longrightarrow> x = c # w \<Longrightarrow> \<exists>u v. w = u @ v \<and> c # u \<in> A \<and> v \<in> star A"
proof (induction arbitrary: w rule: star.induct)
  case star_nil
  then show ?case by simp
next
  case (star_app u v)
  show ?case
  proof (cases u)
    case Nil
    with star_app show ?thesis by simp
  next
    case (Cons a u')
    with star_app.prems have "w = u' @ v" "a = c" by auto
    with Cons star_app.hyps show ?thesis by blast
  qed
qed

lemma cons_in_star:
  "c # w \<in> star A \<longleftrightarrow> (\<exists>u v. w = u @ v \<and> c # u \<in> A \<and> v \<in> star A)"
proof
  assume "c # w \<in> star A"
  then show "\<exists>u v. w = u @ v \<and> c # u \<in> A \<and> v \<in> star A"
    by (rule star_cons_split) simp
next
  assume "\<exists>u v. w = u @ v \<and> c # u \<in> A \<and> v \<in> star A"
  then obtain u v where "w = u @ v" "c # u \<in> A" "v \<in> star A" by blast
  then have "(c # u) @ v \<in> star A" by (intro star_app)
  with \<open>w = u @ v\<close> show "c # w \<in> star A" by simp
qed

lemma nullable_lang: "nullable r \<longleftrightarrow> [] \<in> lang r"
  by (induction r) (auto simp: nil_in_conc star_nil)

lemma rderiv_lang: "w \<in> lang (rderiv c r) \<longleftrightarrow> c # w \<in> lang r"
proof (induction r arbitrary: w)
  case (Cat r s)
  have left: "w \<in> conc (lang (rderiv c r)) (lang s) \<longleftrightarrow>
                (\<exists>u v. w = u @ v \<and> c # u \<in> lang r \<and> v \<in> lang s)"
    by (simp add: in_conc_iff Cat.IH)
  show ?case
  proof (cases "nullable r")
    case True
    then have "w \<in> lang (rderiv c (Cat r s)) \<longleftrightarrow>
                 w \<in> conc (lang (rderiv c r)) (lang s) \<or> c # w \<in> lang s"
      by (simp add: Cat.IH)
    with True show ?thesis
      by (simp only: left lang.simps cons_in_conc nullable_lang) blast
  next
    case False
    then have "w \<in> lang (rderiv c (Cat r s)) \<longleftrightarrow> w \<in> conc (lang (rderiv c r)) (lang s)"
      by simp
    with False show ?thesis
      by (simp only: left lang.simps cons_in_conc nullable_lang) blast
  qed
next
  case (Rep r)
  have "w \<in> lang (rderiv c (Rep r)) \<longleftrightarrow>
          (\<exists>u v. w = u @ v \<and> c # u \<in> lang r \<and> v \<in> star (lang r))"
    by (simp add: in_conc_iff Rep.IH)
  then show ?case
    by (simp add: cons_in_star)
qed auto

lemma regex_test_lang: "regex_test r w \<longleftrightarrow> w \<in> lang r"
  by (induction w arbitrary: r) (simp_all add: nullable_lang rderiv_lang)

lemma star_cls: "w \<in> star {[c] | c. p c} \<longleftrightarrow> list_all p w"
proof (induction w)
  case Nil
  show ?case by (simp add: star_nil)
next
  case (Cons a w)
  show ?case by (auto simp: cons_in_star Cons)
qed

lemma regex_test_OneOrMore_Cls:
  "regex_test (OneOrMore (Cls p)) w \<longleftrightarrow> w \<noteq> [] \<and> list_all p w"
proof (cases w)
  case Nil
  then show ?thesis by (simp add: OneOrMore_def)
next
  case (Cons a w')
  then show ?thesis
    by (auto simp: regex_test_lang OneOrMore_def cons_in_conc star_cls)
qed

text \<open>
  \<open>isValidPhone\<close> without the matcher: a string that is not empty, of characters of
  the class, with ten or more characters left once the separators are removed.
\<close>

lemma isValidPhone_iff:
  "isValidPhone phone \<longleftrightarrow>
     phone \<noteq> [] \<and> list_all phoneChar phone
     \<and> 10 \<le> length (filter (\<lambda>c. \<not> phoneSeparator c) phone)"
  by (auto simp: isValidPhone_def phoneRegex_def regex_test_OneOrMore_Cls cleanPhone_def)

section \<open>The validators on the inputs of the specification\<close>

lemmas char_defs = js_def cu_def isWhiteSpace_def isDigit_def

lemmas email_defs = isValidEmail_def emailRegex_def OneOrMore_def notSpaceAt_def

lemmas phone_defs = isValidPhone_def phoneRegex_def OneOrMore_def phoneChar_def
  phoneSeparator_def cleanPhone_def

lemmas url_defs = isAsciiAlpha_def asciiLower_def isC0OrSpace_def isTabOrNewline_def
  url_preprocess_def isSchemeChar_def split_scheme_def isSpecialScheme_def
  isForbiddenHost_def isForbiddenDomain_def digitValue_def isRadixDigit_def
  parse_radix_def ipv4_number_def ends_in_number_def ipv4_parse_def has_xn_label_def
  host_parse_def isAuthorityEnd_def port_ok_def authority_ok_def isSlash_def
  isWindowsDriveLetter_def file_ok_def new_URL_def

text \<open>
  C3. \<open>isValidEmail\<close> returns true for \<open>a@b.co\<close> and false for \<open>a@b\<close>, for
  \<open>a@@b.com\<close> and for the empty string.
\<close>

theorem isValidEmail_examples:
  "isValidEmail (js ''a@b.co'') \<and> \<not> isValidEmail (js ''a@b'')
   \<and> \<not> isValidEmail (js ''a@@b.com'') \<and> \<not> isValidEmail (js [])"
  by (simp add: char_defs email_defs)

text \<open>
  C4. \<open>isValidPhone\<close> returns true for \<open>+1 (555) 123-4567\<close> and false for \<open>12345\<close>,
  which has fewer than ten characters once spaces, dashes and parentheses are
  removed, and for \<open>abc-defg\<close>, which has characters outside the class of digits,
  white space, dashes, parentheses and plus.
\<close>

theorem isValidPhone_examples:
  "isValidPhone (js ''+1 (555) 123-4567'')
   \<and> \<not> isValidPhone (js ''12345'') \<and> length (cleanPhone (js ''12345'')) < 10
   \<and> \<not> isValidPhone (js ''abc-defg'') \<and> \<not> list_all phoneChar (js ''abc-defg'')"
  by (simp add: char_defs phone_defs)

text \<open>
  The three results for \<open>isValidURL\<close> need five facts about the constructor only, so
  they hold for every constructor \<open>U\<close> that has them.
\<close>

lemma isValidURL_examples_any_constructor:
  assumes "U (js ''example.com'') = None"
    and "U (js ''https://example.com'') = Some u" and "protocol u = js ''https:''"
    and "U (js ''not a url'') = None" and "U (js ''https://not a url'') = None"
  shows "isValidURL U (js ''example.com'')"
    and "isValidURL U (js ''https://example.com'')"
    and "\<not> isValidURL U (js ''not a url'')"
proof -
  have e: "js ''https://'' @ js ''example.com'' = js ''https://example.com''"
    "js ''https://'' @ js ''not a url'' = js ''https://not a url''"
    by (simp_all add: js_def)
  have p: "\<not> startsWith (js ''example.com'') (js ''http'')"
    "\<not> startsWith (js ''not a url'') (js ''http'')"
    by (simp_all add: startsWith_def char_defs)
  show "isValidURL U (js ''example.com'')"
    using assms(1,2) by (simp add: isValidURL_def isValidURL_trace_def p e)
  show "isValidURL U (js ''https://example.com'')"
    using assms(2,3) by (simp add: isValidURL_def isValidURL_trace_def)
  show "\<not> isValidURL U (js ''not a url'')"
    using assms(4,5) by (simp add: isValidURL_def isValidURL_trace_def p e)
qed

text \<open>
  C5. \<open>isValidURL\<close> returns true for \<open>example.com\<close>, where the constructor fails on
  the input and succeeds on \<open>https://example.com\<close>, and for \<open>https://example.com\<close>;
  it returns false for \<open>not a url\<close>.
\<close>

theorem isValidURL_examples:
  "isValidURL_trace new_URL (js ''example.com'')
     = (True, [js ''example.com'', js ''https://example.com''])
   \<and> isValidURL new_URL (js ''example.com'')
   \<and> isValidURL new_URL (js ''https://example.com'')
   \<and> \<not> isValidURL new_URL (js ''not a url'')"
  by (simp add: isValidURL_def isValidURL_trace_def startsWith_def char_defs url_defs)

lemma plus_phoneChar:
  "phoneChar (cu CHR ''+'')" "\<not> phoneSeparator (cu CHR ''+'')" "\<not> isDigit (cu CHR ''+'')"
  by (simp_all add: phoneChar_def phoneSeparator_def cu_def isDigit_def isWhiteSpace_def)

text \<open>
  C8. \<open>isValidPhone\<close> accepts inputs without any digit: every string of ten or more
  \<open>+\<close> characters passes, since \<open>+\<close> is in the class of allowed characters and the
  cleaning step does not remove it.
\<close>

theorem isValidPhone_plus_signs:
  "10 \<le> n \<Longrightarrow>
     isValidPhone (replicate n (cu CHR ''+''))
     \<and> \<not> list_ex isDigit (replicate n (cu CHR ''+''))
     \<and> cleanPhone (replicate n (cu CHR ''+'')) = replicate n (cu CHR ''+'')"
  by (auto simp: isValidPhone_iff plus_phoneChar list_all_iff list_ex_iff cleanPhone_def)

theorem isValidPhone_plus_signs_witness:
  "(10::nat) \<le> 10 \<and> isValidPhone (js ''++++++++++'') \<and> \<not> list_ex isDigit (js ''++++++++++'')"
  using isValidPhone_plus_signs [of 10] by (simp add: js_def numeral_eq_Suc)


section \<open>\<open>isValidURL\<close> and the retry with \<open>https://\<close>\<close>

text \<open>
  When the constructor fails on an input that starts with \<open>http\<close>, \<open>isValidURL\<close>
  returns false after that one call.
\<close>

lemma isValidURL_http_prefix:
  "U url = None \<Longrightarrow> startsWith url (js ''http'') \<Longrightarrow> isValidURL_trace U url = (False, [url])"
  by (simp add: isValidURL_trace_def)

text \<open>
  C6, as amended. When the constructor fails on an input that does not start with
  \<open>http\<close>, \<open>isValidURL\<close> calls it a second time, on \<open>https://\<close> followed by the
  input, and returns true if this second call succeeds and false if it fails: it
  returns false only after the retry has failed too. This holds for every
  constructor \<open>U\<close>.
\<close>

theorem isValidURL_fallback_guarded:
  "U url = None \<Longrightarrow> \<not> startsWith url (js ''http'') \<Longrightarrow>
     isValidURL_trace U url = (U (js ''https://'' @ url) \<noteq> None, [url, js ''https://'' @ url])
     \<and> (\<not> isValidURL U url \<longrightarrow> U (js ''https://'' @ url) = None)"
  by (simp add: isValidURL_def isValidURL_trace_def split: option.split)

theorem isValidURL_fallback_guarded_witness:
  "new_URL (js ''not a url'') = None \<and> \<not> startsWith (js ''not a url'') (js ''http'')
   \<and> isValidURL_trace new_URL (js ''not a url'')
       = (False, [js ''not a url'', js ''https://not a url''])
   \<and> new_URL (js ''https://not a url'') = None"
proof -
  have h: "new_URL (js ''not a url'') = None"
    by (simp add: char_defs url_defs)
  have p: "\<not> startsWith (js ''not a url'') (js ''http'')"
    by (simp add: startsWith_def char_defs)
  have e: "js ''https://'' @ js ''not a url'' = js ''https://not a url''"
    by (simp add: js_def)
  have f: "new_URL (js ''https://not a url'') = None"
    by (simp add: char_defs url_defs)
  show ?thesis
    using isValidURL_fallback_guarded [of new_URL "js ''not a url''"] h p e f by simp
qed

text \<open>
  C6 as stated fails on \<open>http://not a url\<close>: the constructor fails on it,
  \<open>isValidURL\<close> returns false after that single call, without a retry, and the
  constructor would have accepted \<open>https://\<close> followed by the input (as a URL of
  host \<open>http\<close>).
\<close>

theorem isValidURL_no_fallback_counterexample:
  "new_URL (js ''http://not a url'') = None
   \<and> isValidURL_trace new_URL (js ''http://not a url'') = (False, [js ''http://not a url''])
   \<and> new_URL (js ''https://'' @ js ''http://not a url'') = Some \<lparr>protocol = js ''https:''\<rparr>"
  by (simp add: isValidURL_trace_def startsWith_def char_defs url_defs)

text \<open>
  For every constructor \<open>U\<close>: an input on which it fails, that does not start with
  \<open>http\<close>, and for which \<open>https://\<close> followed by the input parses, is accepted.
\<close>

lemma isValidURL_retry_accepts:
  "U url = None \<Longrightarrow> \<not> startsWith url (js ''http'') \<Longrightarrow> U (js ''https://'' @ url) \<noteq> None
     \<Longrightarrow> isValidURL U url"
  by (auto simp: isValidURL_def isValidURL_trace_def)

text \<open>
  C9. The code departs from the claim, and from its own comment
  \<^verbatim>\<open>// If URL doesn't have protocol, try adding it\<close>, on an input without protocol
  that starts with \<open>http\<close>. \<open>httpd\<close> is a single word without dot or white space;
  the constructor fails on it; \<open>https://httpd\<close> parses; and \<open>isValidURL\<close> returns
  false after the one call of the constructor, without the retry. On \<open>foo\<close> and on
  \<open>localhost\<close>, which have no dot either, it returns true, as the claim says.
\<close>

theorem isValidURL_httpd_rejected:
  "\<not> list_ex (\<lambda>c. c = cu CHR ''.'') (js ''httpd'')
   \<and> \<not> list_ex isWhiteSpace (js ''httpd'')
   \<and> new_URL (js ''httpd'') = None
   \<and> new_URL (js ''https://'' @ js ''httpd'') = Some \<lparr>protocol = js ''https:''\<rparr>
   \<and> isValidURL_trace new_URL (js ''httpd'') = (False, [js ''httpd''])
   \<and> \<not> isValidURL new_URL (js ''httpd'')
   \<and> isValidURL new_URL (js ''foo'')
   \<and> isValidURL new_URL (js ''localhost'')"
proof -
  have "\<not> list_ex (\<lambda>c. c = cu CHR ''.'') (js ''httpd'')" "\<not> list_ex isWhiteSpace (js ''httpd'')"
    by (simp_all add: char_defs)
  moreover have "new_URL (js ''httpd'') = None"
    "new_URL (js ''https://'' @ js ''httpd'') = Some \<lparr>protocol = js ''https:''\<rparr>"
    by (simp_all add: char_defs url_defs)
  moreover have "isValidURL_trace new_URL (js ''httpd'') = (False, [js ''httpd''])"
    by (simp add: isValidURL_trace_def startsWith_def char_defs url_defs)
  moreover have "\<not> isValidURL new_URL (js ''httpd'')"
    by (simp add: isValidURL_def isValidURL_trace_def startsWith_def char_defs url_defs)
  moreover have "isValidURL new_URL (js ''foo'')"
    by (simp add: isValidURL_def isValidURL_trace_def startsWith_def char_defs url_defs)
  moreover have "isValidURL new_URL (js ''localhost'')"
    by (simp add: isValidURL_def isValidURL_trace_def startsWith_def char_defs url_defs)
  ultimately show ?thesis by blast
qed

section \<open>Searching and writing in the tree\<close>

lemma text_at_Nil: "text_at n [] = (case n of Message t \<Rightarrow> Some t | Group cs \<Rightarrow> None)"
  by (simp add: text_at_def split: node.split)

lemma text_at_Cons:
  "text_at n (i # q) =
     (case n of Message t \<Rightarrow> None
      | Group cs \<Rightarrow> if i < length cs then text_at (cs ! i) q else None)"
  by (simp add: text_at_def split: node.split)

text \<open>Writing the text of an element changes what that element reads, and nothing else.\<close>

lemma text_at_set_text:
  "text_at (set_text n q m) q' =
     (if q' = q then map_option (\<lambda>t. m) (text_at n q) else text_at n q')"
proof (induction n q m arbitrary: q' rule: set_text.induct)
  case (1 t m)
  then show ?case by (cases q') (simp_all add: text_at_Nil text_at_Cons)
next
  case (2 cs m)
  then show ?case by (simp add: text_at_Nil)
next
  case (3 cs i p m)
  show ?case
  proof (cases q')
    case Nil
    then show ?thesis by (simp add: text_at_Nil)
  next
    case (Cons j r)
    with 3 show ?thesis
      by (auto simp: text_at_Cons nth_list_update)
  qed
next
  case (4 t i p m)
  then show ?case by (cases q') (simp_all add: text_at_Nil text_at_Cons)
qed

lemma first_message_from_cong:
  "length ds = length cs \<Longrightarrow> (\<And>k. k < length cs \<Longrightarrow> first_message (ds ! k) = first_message (cs ! k))
     \<Longrightarrow> first_message_from i ds = first_message_from i cs"
proof (induction cs arbitrary: ds i)
  case Nil
  then show ?case by simp
next
  case (Cons c cs)
  then obtain d ds' where ds: "ds = d # ds'" by (cases ds) auto
  from Cons.prems(2) [of 0] ds have h: "first_message d = first_message c" by simp
  have t: "first_message_from (Suc i) ds' = first_message_from (Suc i) cs"
  proof (rule Cons.IH)
    show "length ds' = length cs" using Cons.prems(1) ds by simp
    fix k assume "k < length cs"
    with Cons.prems(2) [of "Suc k"] ds show "first_message (ds' ! k) = first_message (cs ! k)" by simp
  qed
  show ?case by (simp add: ds h t split: option.split)
qed

lemma first_message_set_text: "first_message (set_text n q m) = first_message n"
proof (induction n q m rule: set_text.induct)
  case (3 cs i p m)
  show ?case
  proof (cases "i < length cs")
    case True
    have "first_message_from 0 (cs[i := set_text (cs ! i) p m]) = first_message_from 0 cs"
      by (rule first_message_from_cong) (auto simp: nth_list_update 3 True)
    with True show ?thesis by simp
  next
    case False
    then show ?thesis by simp
  qed
qed simp_all

lemma map_option_append_Nil: "map_option ((@) []) x = x"
  by (cases x) simp_all

lemma map_option_append_Cons:
  "map_option ((@) (j # p)) x = map_option ((#) j) (map_option ((@) p) x)"
  by (cases x) simp_all

lemma errorElement_Nil:
  "errorElement n [] = (case n of Message t \<Rightarrow> None | Group cs \<Rightarrow> first_message (Group cs))"
  by (cases n) (simp_all add: errorElement_def map_option_append_Nil del: first_message.simps)

lemma errorElement_Cons:
  "errorElement n (j # p) =
     (case n of Message t \<Rightarrow> None
      | Group cs \<Rightarrow> if j < length cs then map_option ((#) j) (errorElement (cs ! j) p) else None)"
proof (cases n)
  case (Message t)
  then show ?thesis by (simp add: errorElement_def)
next
  case (Group cs)
  show ?thesis
  proof (cases "j < length cs")
    case True
    show ?thesis
    proof (cases "subtree (cs ! j) p")
      case None
      with True Group show ?thesis by (simp add: errorElement_def)
    next
      case (Some s)
      with True Group show ?thesis
        by (cases s) (simp_all add: errorElement_def map_option_append_Cons del: first_message.simps)
    qed
  next
    case False
    with Group show ?thesis by (simp add: errorElement_def)
  qed
qed

text \<open>Writing a text changes no result of the search for an error element.\<close>

lemma errorElement_set_text: "errorElement (set_text n q m) p = errorElement n p"
proof (induction n q m arbitrary: p rule: set_text.induct)
  case (1 t m)
  show ?case by (cases p) (simp_all add: errorElement_Nil errorElement_Cons)
next
  case (2 cs m)
  show ?case by simp
next
  case (3 cs i q m)
  show ?case
  proof (cases "i < length cs")
    case False
    then show ?thesis by simp
  next
    case True
    show ?thesis
    proof (cases p)
      case Nil
      have "first_message (set_text (Group cs) (i # q) m) = first_message (Group cs)"
        by (rule first_message_set_text)
      with True show ?thesis by (simp add: Nil errorElement_Nil)
    next
      case (Cons j p')
      show ?thesis
      proof (cases "j = i")
        case True
        with \<open>i < length cs\<close> 3 [OF \<open>i < length cs\<close>, of p'] show ?thesis
          by (simp add: Cons errorElement_Cons)
      next
        case False
        with \<open>i < length cs\<close> show ?thesis
          by (simp add: Cons errorElement_Cons)
      qed
    qed
  qed
next
  case (4 t i q m)
  show ?case by simp
qed

text \<open>The search returns an element that has a text.\<close>

lemma first_message_text:
  "first_message n = Some q \<Longrightarrow> text_at n q \<noteq> None"
  "first_message_from i cs = Some q \<Longrightarrow>
     \<exists>j r. q = (i + j) # r \<and> j < length cs \<and> text_at (cs ! j) r \<noteq> None"
proof (induction n and i cs arbitrary: q and q rule: first_message_first_message_from.induct)
  case (1 t)
  then show ?case by (simp add: text_at_Nil)
next
  case (2 cs)
  from 2(2) have "first_message_from 0 cs = Some q" by simp
  from 2(1) [OF this] obtain j r
    where jr: "q = j # r" "j < length cs" "text_at (cs ! j) r \<noteq> None" by auto
  then show ?case by (simp add: text_at_Cons)
next
  case (3 i)
  then show ?case by simp
next
  case (4 i c cs)
  show ?case
  proof (cases "first_message c")
    case None
    with 4(3) have "first_message_from (Suc i) cs = Some q" by simp
    from 4(2) [OF None this] obtain j r
      where jr: "q = (Suc i + j) # r" "j < length cs" "text_at (cs ! j) r \<noteq> None" by auto
    have "q = (i + Suc j) # r \<and> Suc j < length (c # cs) \<and> text_at ((c # cs) ! Suc j) r \<noteq> None"
      using jr by simp
    then show ?thesis by blast
  next
    case (Some r)
    with 4(3) have q: "q = i # r" by simp
    from 4(1) [OF Some] have "text_at c r \<noteq> None" .
    with q have "q = (i + 0) # r \<and> 0 < length (c # cs) \<and> text_at ((c # cs) ! 0) r \<noteq> None"
      by simp
    then show ?thesis by blast
  qed
qed

lemma errorElement_text: "errorElement doc p = Some q \<Longrightarrow> text_at doc q \<noteq> None"
proof (induction p arbitrary: doc q)
  case Nil
  show ?case
  proof (cases doc)
    case (Message t)
    with Nil show ?thesis by (simp add: errorElement_Nil)
  next
    case (Group cs)
    with Nil have "first_message doc = Some q" by (simp add: errorElement_Nil)
    then show ?thesis by (rule first_message_text(1))
  qed
next
  case (Cons j p)
  show ?case
  proof (cases doc)
    case (Message t)
    with Cons.prems show ?thesis by (simp add: errorElement_Cons)
  next
    case (Group cs)
    with Cons.prems have j: "j < length cs"
      and "map_option ((#) j) (errorElement (cs ! j) p) = Some q"
      by (simp_all add: errorElement_Cons split: if_splits)
    then obtain r where r: "errorElement (cs ! j) p = Some r" "q = j # r"
      by (cases "errorElement (cs ! j) p") auto
    from Cons.IH [OF r(1)] j r(2) Group show ?thesis
      by (simp add: text_at_Cons)
  qed
qed

lemma errorElement_prefix: "errorElement doc p = Some q \<Longrightarrow> \<exists>r. q = p @ r"
  by (auto simp: errorElement_def split: option.splits node.splits)

lemma is_group_Nil: "is_group n [] = (case n of Message t \<Rightarrow> False | Group cs \<Rightarrow> True)"
  by (cases n) (simp_all add: is_group_def)

lemma is_group_Cons:
  "is_group n (j # p) =
     (case n of Message t \<Rightarrow> False | Group cs \<Rightarrow> j < length cs \<and> is_group (cs ! j) p)"
  by (cases n) (simp_all add: is_group_def)

lemma is_group_set_text: "is_group (set_text n q m) p = is_group n p"
proof (induction n q m arbitrary: p rule: set_text.induct)
  case (1 t m)
  show ?case by (cases p) (simp_all add: is_group_Nil is_group_Cons)
next
  case (2 cs m)
  show ?case by simp
next
  case (3 cs i q m)
  show ?case
  proof (cases "i < length cs")
    case False
    then show ?thesis by simp
  next
    case True
    show ?thesis
    proof (cases p)
      case Nil
      with True show ?thesis by (simp add: is_group_Nil)
    next
      case (Cons j p')
      show ?thesis
      proof (cases "j = i")
        case True
        with \<open>i < length cs\<close> 3 [OF \<open>i < length cs\<close>, of p'] show ?thesis
          by (simp add: Cons is_group_Cons)
      next
        case False
        with \<open>i < length cs\<close> show ?thesis
          by (simp add: Cons is_group_Cons)
      qed
    qed
  qed
next
  case (4 t i q m)
  show ?case by simp
qed

lemma is_group_append_child: "is_group n p \<Longrightarrow> is_group (append_child n q c) p"
proof (induction n q c arbitrary: p rule: append_child.induct)
  case (1 cs c)
  show ?case
  proof (cases p)
    case Nil
    then show ?thesis by (simp add: is_group_Nil)
  next
    case (Cons j p')
    with 1 show ?thesis by (simp add: is_group_Cons nth_append)
  qed
next
  case (2 t c)
  then show ?case by simp
next
  case (3 cs i q c)
  show ?case
  proof (cases "i < length cs")
    case False
    with 3(2) show ?thesis by simp
  next
    case True
    show ?thesis
    proof (cases p)
      case Nil
      with True show ?thesis by (simp add: is_group_Nil)
    next
      case (Cons j p')
      show ?thesis
      proof (cases "j = i")
        case True
        from 3(2) Cons True have "is_group (cs ! i) p'" by (simp add: is_group_Cons)
        from 3(1) [OF \<open>i < length cs\<close> this] \<open>i < length cs\<close> True show ?thesis
          by (simp add: Cons is_group_Cons)
      next
        case False
        with \<open>i < length cs\<close> 3(2) show ?thesis
          by (simp add: Cons is_group_Cons)
      qed
    qed
  qed
next
  case (4 t i q c)
  then show ?case by simp
qed

lemma new_child_Nil:
  "new_child n [] = (case n of Message t \<Rightarrow> None | Group cs \<Rightarrow> Some [length cs])"
  by (cases n) (simp_all add: new_child_def)

lemma new_child_Cons:
  "new_child n (j # p) =
     (case n of Message t \<Rightarrow> None
      | Group cs \<Rightarrow> if j < length cs then map_option ((#) j) (new_child (cs ! j) p) else None)"
proof (cases n)
  case (Message t)
  then show ?thesis by (simp add: new_child_def)
next
  case (Group cs)
  show ?thesis
  proof (cases "j < length cs")
    case True
    show ?thesis
    proof (cases "subtree (cs ! j) p")
      case None
      with True Group show ?thesis by (simp add: new_child_def)
    next
      case (Some s)
      with True Group show ?thesis by (cases s) (simp_all add: new_child_def)
    qed
  next
    case False
    with Group show ?thesis by (simp add: new_child_def)
  qed
qed

lemma new_child_prefix: "new_child doc p = Some q \<Longrightarrow> \<exists>r. q = p @ r"
  by (auto simp: new_child_def split: option.splits node.splits)

lemma new_child_is_group: "new_child doc p \<noteq> None \<longleftrightarrow> is_group doc p"
  by (auto simp: new_child_def is_group_def split: option.splits node.splits)

text \<open>
  Appending an error element with a text adds that text at the path of the new child,
  and changes no text that was there.
\<close>

lemma text_at_append_child_gen:
  "c = Message m \<Longrightarrow>
     text_at (append_child n p c) q' = (if new_child n p = Some q' then Some m else text_at n q')"
proof (induction n p c arbitrary: q' rule: append_child.induct)
  case (1 cs c)
  show ?case
  proof (cases q')
    case Nil
    then show ?thesis by (simp add: text_at_Nil new_child_Nil)
  next
    case (Cons j r)
    show ?thesis
    proof (cases "j < length cs")
      case True
      then show ?thesis by (simp add: Cons text_at_Cons new_child_Nil nth_append)
    next
      case False
      show ?thesis
      proof (cases "j = length cs")
        case True
        with 1 show ?thesis
          by (cases r) (simp_all add: Cons text_at_Cons text_at_Nil new_child_Nil)
      next
        case False
        with \<open>\<not> j < length cs\<close> show ?thesis
          by (simp add: Cons text_at_Cons new_child_Nil)
      qed
    qed
  qed
next
  case (2 t c)
  show ?case by (simp add: new_child_Nil)
next
  case (3 cs i p c)
  show ?case
  proof (cases "i < length cs")
    case False
    then show ?thesis by (simp add: new_child_Cons)
  next
    case True
    show ?thesis
    proof (cases q')
      case Nil
      with True show ?thesis
        by (cases "new_child (cs ! i) p") (simp_all add: text_at_Nil new_child_Cons)
    next
      case (Cons j r)
      show ?thesis
      proof (cases "j = i")
        case True
        from 3(1) [OF \<open>i < length cs\<close> 3(2), of r] \<open>i < length cs\<close> True show ?thesis
          by (cases "new_child (cs ! i) p") (simp_all add: Cons text_at_Cons new_child_Cons)
      next
        case False
        with \<open>i < length cs\<close> show ?thesis
          by (cases "new_child (cs ! i) p") (auto simp: Cons text_at_Cons new_child_Cons)
      qed
    qed
  qed
next
  case (4 t i p c)
  show ?case by (simp add: new_child_Cons)
qed

lemma text_at_append_child:
  "text_at (append_child n p (Message m)) q' =
     (if new_child n p = Some q' then Some m else text_at n q')"
  by (rule text_at_append_child_gen) simp

section \<open>What a validation step changes\<close>

lemma last_write_Nil: "last_write [] q = None"
  by (simp add: last_write_def)

lemma last_write_single:
  "last_write [w] q = (if write_target w = q then Some (write_text w) else None)"
  by (simp add: last_write_def)

lemma last_write_append:
  "last_write (ws @ es) q = (case last_write es q of None \<Rightarrow> last_write ws q | Some t \<Rightarrow> Some t)"
proof (cases "filter (\<lambda>w. write_target w = q) es")
  case Nil
  then show ?thesis by (simp add: last_write_def)
next
  case (Cons x xs)
  then have "last (filter (\<lambda>w. write_target w = q) ws @ x # xs) = last (x # xs)"
    by simp
  with Cons show ?thesis
    by (cases "filter (\<lambda>w. write_target w = q) ws") (simp_all add: last_write_def)
qed

lemma texts_follow_refl: "texts_follow doc [] doc"
  by (simp add: texts_follow_def last_write_Nil)

lemma texts_follow_trans:
  assumes "texts_follow a ws b" and "texts_follow b es c"
  shows "texts_follow a (ws @ es) c"
  unfolding texts_follow_def
proof
  fix q
  from assms have a: "text_at b q = (case last_write ws q of None \<Rightarrow> text_at a q | Some t \<Rightarrow> Some t)"
    and b: "text_at c q = (case last_write es q of None \<Rightarrow> text_at b q | Some t \<Rightarrow> Some t)"
    unfolding texts_follow_def by blast+
  show "text_at c q = (case last_write (ws @ es) q of None \<Rightarrow> text_at a q | Some t \<Rightarrow> Some t)"
    by (cases "last_write es q") (simp_all add: a b last_write_append)
qed

lemma texts_follow_set_errorSpan:
  "texts_follow doc (errorSpan_write n doc p m) (set_errorSpan doc p m)"
proof (cases "errorElement doc p")
  case None
  then show ?thesis
    by (simp add: errorSpan_write_def set_errorSpan_def texts_follow_refl)
next
  case (Some q)
  from errorElement_text [OF Some] obtain t where t: "text_at doc q = Some t" by auto
  show ?thesis
    unfolding texts_follow_def
    by (simp add: Some errorSpan_write_def set_errorSpan_def last_write_single text_at_set_text t
          write_target_def write_text_def)
qed

lemma texts_follow_markInvalid:
  "texts_follow doc (markInvalid_write n doc (parent input) m) (snd (markInvalid input m doc))"
proof (cases "errorElement doc (parent input)")
  case (Some q)
  from errorElement_text [OF Some] obtain t where t: "text_at doc q = Some t" by auto
  show ?thesis
    unfolding texts_follow_def
    by (simp add: Some markInvalid_write_def markInvalid_def last_write_single text_at_set_text t
          write_target_def write_text_def)
next
  case None
  show ?thesis
  proof (cases "new_child doc (parent input)")
    case (Some q)
    show ?thesis
      unfolding texts_follow_def
      by (auto simp: None Some markInvalid_write_def markInvalid_def last_write_single
            text_at_append_child write_target_def write_text_def)
  next
    case n: None
    show ?thesis
      unfolding texts_follow_def
      by (simp add: None n markInvalid_write_def markInvalid_def last_write_Nil
            text_at_append_child)
  qed
qed

lemma errorSpan_write_names: "list_all (\<lambda>w. write_name w = n) (errorSpan_write n doc p m)"
  by (simp add: errorSpan_write_def write_name_def split: option.split)

lemma markInvalid_write_names: "list_all (\<lambda>w. write_name w = n) (markInvalid_write n doc p m)"
  by (simp add: markInvalid_write_def write_name_def split: option.split)

lemma is_group_set_errorSpan: "is_group (set_errorSpan doc p m) r = is_group doc r"
  by (simp add: set_errorSpan_def is_group_set_text split: option.split)

lemma errorElement_set_errorSpan: "errorElement (set_errorSpan doc p m) r = errorElement doc r"
  by (simp add: set_errorSpan_def errorElement_set_text split: option.split)

lemma local_set_error: "local_op n (set_error n input m)"
  unfolding local_op_def
proof (intro allI conjI impI)
  fix fw :: "form \<times> span_write list"
  show "\<exists>es. snd (set_error n input m fw) = snd fw @ es \<and> list_all (\<lambda>w. write_name w = n) es
          \<and> texts_follow (layout (fst fw)) es (layout (fst (set_error n input m fw)))"
    by (rule exI [of _ "errorSpan_write n (layout (fst fw)) (parent input) m"])
      (simp add: set_error_def store_field_def setFieldError_def errorSpan_write_names
         texts_follow_set_errorSpan)
qed (simp_all add: set_error_def store_field_def setFieldError_def is_group_set_errorSpan)

lemma local_clear_error: "local_op n (clear_error n input)"
  unfolding local_op_def
proof (intro allI conjI impI)
  fix fw :: "form \<times> span_write list"
  show "\<exists>es. snd (clear_error n input fw) = snd fw @ es \<and> list_all (\<lambda>w. write_name w = n) es
          \<and> texts_follow (layout (fst fw)) es (layout (fst (clear_error n input fw)))"
    by (rule exI [of _ "errorSpan_write n (layout (fst fw)) (parent input) []"])
      (simp add: clear_error_def store_field_def clearFieldError_def Let_def errorSpan_write_names
         texts_follow_set_errorSpan)
qed (simp_all add: clear_error_def store_field_def clearFieldError_def Let_def is_group_set_errorSpan)

lemma local_mark_valid: "local_op n (mark_valid n input)"
  unfolding local_op_def
proof (intro allI conjI impI)
  fix fw :: "form \<times> span_write list"
  show "\<exists>es. snd (mark_valid n input fw) = snd fw @ es \<and> list_all (\<lambda>w. write_name w = n) es
          \<and> texts_follow (layout (fst fw)) es (layout (fst (mark_valid n input fw)))"
    by (rule exI [of _ "errorSpan_write n (layout (fst fw)) (parent input) []"])
      (simp add: mark_valid_def store_field_def markValid_def errorSpan_write_names
         texts_follow_set_errorSpan)
qed (simp_all add: mark_valid_def store_field_def markValid_def is_group_set_errorSpan)

lemma is_group_markInvalid: "is_group doc r \<Longrightarrow> is_group (snd (markInvalid input m doc)) r"
  by (simp add: markInvalid_def is_group_set_text is_group_append_child split: option.split)

lemma local_mark_invalid: "local_op n (mark_invalid n input m)"
  unfolding local_op_def
proof (intro allI conjI impI)
  fix fw :: "form \<times> span_write list"
  show "\<exists>es. snd (mark_invalid n input m fw) = snd fw @ es \<and> list_all (\<lambda>w. write_name w = n) es
          \<and> texts_follow (layout (fst fw)) es (layout (fst (mark_invalid n input m fw)))"
    by (rule exI [of _ "markInvalid_write n (layout (fst fw)) (parent input) m"])
      (simp add: mark_invalid_def store_field_def markInvalid_write_names texts_follow_markInvalid)
qed (simp_all add: mark_invalid_def store_field_def is_group_markInvalid)

lemma static_set_error: "static_op (set_error n input m)"
  by (simp add: static_op_def set_error_def store_field_def setFieldError_def
        errorElement_set_errorSpan)

lemma static_clear_error: "static_op (clear_error n input)"
  by (simp add: static_op_def clear_error_def store_field_def clearFieldError_def Let_def
        errorElement_set_errorSpan)

text \<open>A step that keeps the state, or makes one local call, is local.\<close>

lemma local_step_id: "local_step m (\<lambda>st. st)"
  unfolding local_step_def
  by (auto intro: exI [of _ "[]"] simp: texts_follow_refl)

lemma local_op_step:
  assumes "local_op m h" and "\<not> fst st \<longrightarrow> \<not> b"
  shows "(\<not> fst st \<longrightarrow> \<not> fst (b, h (snd st)))
        \<and> (\<forall>k. k \<noteq> m \<longrightarrow> elements (form_of (b, h (snd st))) k = elements (form_of st) k)
        \<and> (\<exists>es. writes_of (b, h (snd st)) = writes_of st @ es
              \<and> list_all (\<lambda>w. write_name w = m) es
              \<and> texts_follow (layout (form_of st)) es (layout (form_of (b, h (snd st)))))
        \<and> (\<forall>p. is_group (layout (form_of st)) p \<longrightarrow> is_group (layout (form_of (b, h (snd st)))) p)"
proof -
  from assms(1) have
    "(\<forall>k. k \<noteq> m \<longrightarrow> elements (fst (h (snd st))) k = elements (fst (snd st)) k)
     \<and> (\<exists>es. snd (h (snd st)) = snd (snd st) @ es
           \<and> list_all (\<lambda>w. write_name w = m) es
           \<and> texts_follow (layout (fst (snd st))) es (layout (fst (h (snd st)))))
     \<and> (\<forall>p. is_group (layout (fst (snd st))) p \<longrightarrow> is_group (layout (fst (h (snd st)))) p)"
    unfolding local_op_def by blast
  with assms(2) show ?thesis
    by (simp add: form_of_def writes_of_def)
qed

lemma keep_step:
  "(\<not> fst st \<longrightarrow> \<not> fst st)
        \<and> (\<forall>k. k \<noteq> m \<longrightarrow> elements (form_of st) k = elements (form_of st) k)
        \<and> (\<exists>es. writes_of st = writes_of st @ es
              \<and> list_all (\<lambda>w. write_name w = m) es
              \<and> texts_follow (layout (form_of st)) es (layout (form_of st)))
        \<and> (\<forall>p. is_group (layout (form_of st)) p \<longrightarrow> is_group (layout (form_of st)) p)"
  by (auto intro: exI [of _ "[]"] simp: texts_follow_refl)

lemma local_required_step: "local_step (rname rf) (required_step rf)"
  unfolding local_step_def
proof
  fix st
  show "(\<not> fst st \<longrightarrow> \<not> fst (required_step rf st))
        \<and> (\<forall>k. k \<noteq> rname rf \<longrightarrow> elements (form_of (required_step rf st)) k = elements (form_of st) k)
        \<and> (\<exists>es. writes_of (required_step rf st) = writes_of st @ es
              \<and> list_all (\<lambda>w. write_name w = rname rf) es
              \<and> texts_follow (layout (form_of st)) es (layout (form_of (required_step rf st))))
        \<and> (\<forall>p. is_group (layout (form_of st)) p \<longrightarrow> is_group (layout (form_of (required_step rf st))) p)"
  proof (cases "elements (form_of st) (rname rf)")
    case None
    then show ?thesis using keep_step [of st "rname rf"] by (simp add: required_step_def)
  next
    case (Some input)
    show ?thesis
      using local_op_step [OF local_set_error, of st False "rname rf" input]
        local_op_step [OF local_clear_error, of st "fst st" "rname rf" input]
      by (simp add: required_step_def Some Let_def)
  qed
qed

lemma local_phone_step: "local_step m (phone_step m)"
  unfolding local_step_def
proof
  fix st
  show "(\<not> fst st \<longrightarrow> \<not> fst (phone_step m st))
        \<and> (\<forall>k. k \<noteq> m \<longrightarrow> elements (form_of (phone_step m st)) k = elements (form_of st) k)
        \<and> (\<exists>es. writes_of (phone_step m st) = writes_of st @ es
              \<and> list_all (\<lambda>w. write_name w = m) es
              \<and> texts_follow (layout (form_of st)) es (layout (form_of (phone_step m st))))
        \<and> (\<forall>p. is_group (layout (form_of st)) p \<longrightarrow> is_group (layout (form_of (phone_step m st))) p)"
  proof (cases "elements (form_of st) m")
    case None
    then show ?thesis using keep_step [of st m] by (simp add: phone_step_def)
  next
    case (Some input)
    show ?thesis
      using local_op_step [OF local_set_error, of st False m input]
        local_op_step [OF local_clear_error, of st "fst st" m input] keep_step [of st m]
      by (simp add: phone_step_def Some Let_def)
  qed
qed

lemma local_url_step: "local_step (js ''url'') (url_step U)"
  unfolding local_step_def
proof
  fix st
  show "(\<not> fst st \<longrightarrow> \<not> fst (url_step U st))
        \<and> (\<forall>k. k \<noteq> js ''url'' \<longrightarrow> elements (form_of (url_step U st)) k = elements (form_of st) k)
        \<and> (\<exists>es. writes_of (url_step U st) = writes_of st @ es
              \<and> list_all (\<lambda>w. write_name w = js ''url'') es
              \<and> texts_follow (layout (form_of st)) es (layout (form_of (url_step U st))))
        \<and> (\<forall>p. is_group (layout (form_of st)) p \<longrightarrow> is_group (layout (form_of (url_step U st))) p)"
  proof (cases "elements (form_of st) (js ''url'')")
    case None
    then show ?thesis using keep_step [of st "js ''url''"] by (simp add: url_step_def)
  next
    case (Some input)
    show ?thesis
      using local_op_step [OF local_set_error, of st False "js ''url''" input]
        local_op_step [OF local_clear_error, of st "fst st" "js ''url''" input]
        keep_step [of st "js ''url''"]
      by (simp add: url_step_def Some Let_def)
  qed
qed

lemma local_required_step_inline: "local_step (fst rf) (required_step_inline rf)"
  unfolding local_step_def
proof
  fix st
  show "(\<not> fst st \<longrightarrow> \<not> fst (required_step_inline rf st))
        \<and> (\<forall>k. k \<noteq> fst rf \<longrightarrow> elements (form_of (required_step_inline rf st)) k = elements (form_of st) k)
        \<and> (\<exists>es. writes_of (required_step_inline rf st) = writes_of st @ es
              \<and> list_all (\<lambda>w. write_name w = fst rf) es
              \<and> texts_follow (layout (form_of st)) es (layout (form_of (required_step_inline rf st))))
        \<and> (\<forall>p. is_group (layout (form_of st)) p \<longrightarrow> is_group (layout (form_of (required_step_inline rf st))) p)"
  proof (cases "elements (form_of st) (fst rf)")
    case None
    then show ?thesis using keep_step [of st "fst rf"] by (simp add: required_step_inline_def)
  next
    case (Some input)
    show ?thesis
      using local_op_step [OF local_mark_invalid, of st False "fst rf" input]
        local_op_step [OF local_mark_valid, of st "fst st" "fst rf" input]
      by (simp add: required_step_inline_def Some)
  qed
qed

lemma local_format_step_inline: "local_step m (format_step_inline m v msg)"
  unfolding local_step_def
proof
  fix st
  show "(\<not> fst st \<longrightarrow> \<not> fst (format_step_inline m v msg st))
        \<and> (\<forall>k. k \<noteq> m \<longrightarrow> elements (form_of (format_step_inline m v msg st)) k = elements (form_of st) k)
        \<and> (\<exists>es. writes_of (format_step_inline m v msg st) = writes_of st @ es
              \<and> list_all (\<lambda>w. write_name w = m) es
              \<and> texts_follow (layout (form_of st)) es (layout (form_of (format_step_inline m v msg st))))
        \<and> (\<forall>p. is_group (layout (form_of st)) p \<longrightarrow> is_group (layout (form_of (format_step_inline m v msg st))) p)"
  proof (cases "elements (form_of st) m")
    case None
    then show ?thesis using keep_step [of st m] by (simp add: format_step_inline_def)
  next
    case (Some input)
    show ?thesis
      using local_op_step [OF local_mark_invalid, of st False m input msg] keep_step [of st m]
      by (simp add: format_step_inline_def Some)
  qed
qed

lemma static_op_step: "static_op h \<Longrightarrow>
    errorElement (layout (form_of (b, h (snd st)))) p = errorElement (layout (form_of st)) p"
proof -
  assume "static_op h"
  then have "errorElement (layout (fst (h (snd st)))) p = errorElement (layout (fst (snd st))) p"
    unfolding static_op_def by blast
  then show ?thesis by (simp add: form_of_def)
qed

lemma static_required_step: "static_step (required_step rf)"
  unfolding static_step_def
proof (intro allI)
  fix st p
  show "errorElement (layout (form_of (required_step rf st))) p = errorElement (layout (form_of st)) p"
    using static_op_step [OF static_set_error, of False "rname rf" _ _ st p]
      static_op_step [OF static_clear_error, of "fst st" "rname rf" _ st p]
    by (cases "elements (form_of st) (rname rf)") (simp_all add: required_step_def Let_def)
qed

lemma static_phone_step: "static_step (phone_step m)"
  unfolding static_step_def
proof (intro allI)
  fix st p
  show "errorElement (layout (form_of (phone_step m st))) p = errorElement (layout (form_of st)) p"
    using static_op_step [OF static_set_error, of False m _ _ st p]
      static_op_step [OF static_clear_error, of "fst st" m _ st p]
    by (cases "elements (form_of st) m") (simp_all add: phone_step_def Let_def)
qed

lemma static_url_step: "static_step (url_step U)"
  unfolding static_step_def
proof (intro allI)
  fix st p
  show "errorElement (layout (form_of (url_step U st))) p = errorElement (layout (form_of st)) p"
    using static_op_step [OF static_set_error, of False "js ''url''" _ _ st p]
      static_op_step [OF static_clear_error, of "fst st" "js ''url''" _ st p]
    by (cases "elements (form_of st) (js ''url'')") (simp_all add: url_step_def Let_def)
qed

section \<open>The classes \<open>valid\<close> and \<open>invalid\<close>\<close>

lemma valid_neq_invalid: "js ''valid'' \<noteq> js ''invalid''" "js ''invalid'' \<noteq> js ''valid''"
  by (simp_all add: js_def)

lemma setFieldError_classes:
  "js ''invalid'' \<in> set (classList (fst (setFieldError fld message sp)))"
  "js ''valid'' \<notin> set (classList (fst (setFieldError fld message sp)))"
  by (simp_all add: setFieldError_def classList_add_def classList_remove_def valid_neq_invalid)

lemma clearFieldError_classes:
  "js ''invalid'' \<notin> set (classList (fst (clearFieldError fld sp)))"
  "js ''valid'' \<in> set (classList (fst (clearFieldError fld sp))) \<longleftrightarrow> trim (fvalue fld) \<noteq> []"
  by (simp_all add: clearFieldError_def classList_add_def classList_remove_def valid_neq_invalid
        truthy_def Let_def)

lemma setFieldError_fields:
  "fvalue (fst (setFieldError fld message sp)) = fvalue fld"
  "parent (fst (setFieldError fld message sp)) = parent fld"
  by (simp_all add: setFieldError_def)

lemma clearFieldError_fields:
  "fvalue (fst (clearFieldError fld sp)) = fvalue fld"
  "parent (fst (clearFieldError fld sp)) = parent fld"
  by (simp_all add: clearFieldError_def Let_def)

lemma apply_op_fvalue: "fvalue (fst (apply_op op st)) = fvalue (fst st)"
  by (cases op) (simp_all add: setFieldError_fields clearFieldError_fields)

lemma apply_op_classes:
  "\<not> (js ''valid'' \<in> set (classList (fst (apply_op op st)))
      \<and> js ''invalid'' \<in> set (classList (fst (apply_op op st))))"
  "js ''valid'' \<in> set (classList (fst (apply_op op st))) \<Longrightarrow> trim (fvalue (fst st)) \<noteq> []"
  by (cases op; simp add: setFieldError_classes clearFieldError_classes)+

text \<open>
  C10. \<open>setFieldError\<close> leaves the field with \<open>invalid\<close> and without \<open>valid\<close>;
  \<open>clearFieldError\<close> leaves it without \<open>invalid\<close>, and with \<open>valid\<close> exactly when
  its trimmed value is not empty. So after any sequence of these calls that is not
  empty, whatever classes the field had before, it does not carry both classes, and
  it does not carry \<open>valid\<close> when its trimmed value is empty.
\<close>

theorem valid_invalid_exclusive:
  assumes "ops \<noteq> []"
  shows "js ''invalid'' \<in> set (classList (fst (setFieldError fld message sp)))
         \<and> js ''valid'' \<notin> set (classList (fst (setFieldError fld message sp)))
         \<and> js ''invalid'' \<notin> set (classList (fst (clearFieldError fld sp)))
         \<and> (js ''valid'' \<in> set (classList (fst (clearFieldError fld sp))) \<longleftrightarrow> trim (fvalue fld) \<noteq> [])
         \<and> \<not> (js ''valid'' \<in> set (classList (fst (fold apply_op ops (fld, sp))))
               \<and> js ''invalid'' \<in> set (classList (fst (fold apply_op ops (fld, sp)))))
         \<and> (trim (fvalue (fst (fold apply_op ops (fld, sp)))) = []
               \<longrightarrow> js ''valid'' \<notin> set (classList (fst (fold apply_op ops (fld, sp)))))"
proof -
  from assms obtain ops' op where ops: "ops = ops' @ [op]"
    by (cases ops rule: rev_cases) auto
  define st where "st = fold apply_op ops' (fld, sp)"
  have last: "fold apply_op ops (fld, sp) = apply_op op st"
    by (simp add: ops st_def)
  have val: "fvalue (fst (apply_op op st)) = fvalue (fst st)"
    by (rule apply_op_fvalue)
  have excl: "\<not> (js ''valid'' \<in> set (classList (fst (apply_op op st)))
      \<and> js ''invalid'' \<in> set (classList (fst (apply_op op st))))"
    by (rule apply_op_classes)
  have empty: "trim (fvalue (fst (apply_op op st))) = []
      \<longrightarrow> js ''valid'' \<notin> set (classList (fst (apply_op op st)))"
    using apply_op_classes(2) [of op st] unfolding val by blast
  show ?thesis
    unfolding last
    using excl empty setFieldError_classes [of fld message sp] clearFieldError_classes [of fld sp]
    by blast
qed

lemma trim_two_spaces: "trim (js ''  '') = []"
  by (simp add: trim_def char_defs)

lemma fold_apply_op_example: "fold apply_op
        [ClearFieldError, SetFieldError (js ''Email is required''), ClearFieldError]
        (\<lparr>fvalue = js ''  '', classList = [js ''valid'', js ''invalid''], parent = [],
             borderColor = [], backgroundColor = []\<rparr>, Group []) = 
        (\<lparr>fvalue = js ''  '', classList = [], parent = [],
             borderColor = [], backgroundColor = []\<rparr>, Group [])"
  by (simp add: setFieldError_def clearFieldError_def classList_add_def classList_remove_def
       set_errorSpan_def errorElement_def truthy_def trim_two_spaces valid_neq_invalid)

theorem valid_invalid_exclusive_witness:
  "[ClearFieldError, SetFieldError (js ''Email is required''), ClearFieldError] \<noteq> []
   \<and> classList (fst (fold apply_op
        [ClearFieldError, SetFieldError (js ''Email is required''), ClearFieldError]
        (\<lparr>fvalue = js ''  '', classList = [js ''valid'', js ''invalid''], parent = [],
             borderColor = [], backgroundColor = []\<rparr>, Group []))) = []
   \<and> \<not> (js ''valid'' \<in> set (classList (fst (fold apply_op
        [ClearFieldError, SetFieldError (js ''Email is required''), ClearFieldError]
        (\<lparr>fvalue = js ''  '', classList = [js ''valid'', js ''invalid''], parent = [],
             borderColor = [], backgroundColor = []\<rparr>, Group []))))
      \<and> js ''invalid'' \<in> set (classList (fst (fold apply_op
        [ClearFieldError, SetFieldError (js ''Email is required''), ClearFieldError]
        (\<lparr>fvalue = js ''  '', classList = [js ''valid'', js ''invalid''], parent = [],
             borderColor = [], backgroundColor = []\<rparr>, Group [])))))"
proof -
  have h: "[ClearFieldError, SetFieldError (js ''Email is required''), ClearFieldError] \<noteq> []"
    by simp
  from valid_invalid_exclusive [OF h] fold_apply_op_example h show ?thesis
    by simp
qed

section \<open>The submit handlers\<close>

text \<open>
  C1. On a submit event that no other listener has cancelled, \<open>handleFormSubmit\<close>
  returns what \<open>validateForm\<close> returns and calls \<open>preventDefault\<close> exactly when that
  is false: the post is blocked if and only if validation fails, and when validation
  succeeds the handler returns true and leaves the event alone. The same holds for
  the submit listener of the second script and its \<open>validateForm\<close>.
\<close>

theorem submit_blocked_iff_invalid:
  assumes "\<not> defaultPrevented e"
  shows "fst (handleFormSubmit U e pg) = fst (validateForm U (theForm pg))
         \<and> defaultPrevented (fst (snd (handleFormSubmit U e pg))) = (\<not> fst (validateForm U (theForm pg)))
         \<and> fst (submitListener U e frm) = fst (validateForm_inline U frm)
         \<and> defaultPrevented (fst (snd (submitListener U e frm))) = (\<not> fst (validateForm_inline U frm))"
  using assms
  by (simp add: handleFormSubmit_def submitListener_def preventDefault_def Let_def)

lemmas form_defs = text_field_def store_field_def setFieldError_def clearFieldError_def
  set_errorSpan_def errorSpan_write_def set_error_def clear_error_def
  classList_add_def classList_remove_def classList_contains_def
  markInvalid_def markInvalid_write_def markValid_def mark_invalid_def mark_valid_def
  errorElement_def new_child_def form_of_def writes_of_def truthy_def trim_def

lemmas validateForm_defs = validateForm_def required_step_def phone_step_def url_step_def
  requiredFields_def phoneFields_def

lemmas validateForm_inline_defs = validateForm_inline_def required_step_inline_def
  format_step_inline_def requiredFields_inline_def

lemma validateForm_examples:
  "fst (validateForm new_URL form_filled_in)" "\<not> fst (validateForm new_URL form_shared_error_element)"
  "fst (validateForm_inline new_URL form_filled_in)"
  "\<not> fst (validateForm_inline new_URL form_shared_error_element)"
  by (simp_all add: form_filled_in_def form_shared_error_element_def validateForm_defs
        validateForm_inline_defs form_defs char_defs email_defs)

theorem submit_blocked_iff_invalid_witness:
  "\<not> defaultPrevented fresh_event
   \<and> fst (handleFormSubmit new_URL fresh_event (page_of form_filled_in))
   \<and> \<not> defaultPrevented (fst (snd (handleFormSubmit new_URL fresh_event (page_of form_filled_in))))
   \<and> \<not> fst (handleFormSubmit new_URL fresh_event (page_of form_shared_error_element))
   \<and> defaultPrevented
        (fst (snd (handleFormSubmit new_URL fresh_event (page_of form_shared_error_element))))
   \<and> fst (submitListener new_URL fresh_event form_filled_in)
   \<and> \<not> defaultPrevented (fst (snd (submitListener new_URL fresh_event form_filled_in)))
   \<and> \<not> fst (submitListener new_URL fresh_event form_shared_error_element)
   \<and> defaultPrevented (fst (snd (submitListener new_URL fresh_event form_shared_error_element)))"
proof -
  have e: "\<not> defaultPrevented fresh_event" by (simp add: fresh_event_def)
  have p: "theForm (page_of frm) = frm" for frm by (simp add: page_of_def)
  from submit_blocked_iff_invalid [OF e, of new_URL "page_of form_filled_in" form_filled_in]
    submit_blocked_iff_invalid [OF e, of new_URL "page_of form_shared_error_element"
      form_shared_error_element]
  show ?thesis
    using e by (simp add: p validateForm_examples)
qed

section \<open>A required field left blank\<close>

lemma fold_invariant:
  "(\<And>x st. x \<in> set xs \<Longrightarrow> I st \<Longrightarrow> I (f x st)) \<Longrightarrow> I st \<Longrightarrow> I (fold f xs st)"
  by (induction xs arbitrary: st) simp_all

lemma local_stepD:
  assumes "local_step m g"
  shows "\<not> fst st \<Longrightarrow> \<not> fst (g st)"
    and "k \<noteq> m \<Longrightarrow> elements (form_of (g st)) k = elements (form_of st) k"
    and "\<exists>es. writes_of (g st) = writes_of st @ es \<and> list_all (\<lambda>w. write_name w = m) es
           \<and> texts_follow (layout (form_of st)) es (layout (form_of (g st)))"
    and "is_group (layout (form_of st)) p \<Longrightarrow> is_group (layout (form_of (g st))) p"
  using assms unfolding local_step_def by blast+

lemma static_stepD:
  "static_step g \<Longrightarrow> errorElement (layout (form_of (g st))) p = errorElement (layout (form_of st)) p"
  unfolding static_step_def by blast

lemma before_step_init: "elements frm n = Some input \<Longrightarrow> before_step frm n input (b, frm, [])"
  by (simp add: before_step_def form_of_def writes_of_def texts_follow_refl)

lemma local_step_before:
  assumes loc: "local_step m g" and mn: "m \<noteq> n" and inv: "before_step frm n input st"
  shows "before_step frm n input (g st)"
proof -
  from local_stepD(3) [OF loc, of st] obtain es where es: "writes_of (g st) = writes_of st @ es"
    "list_all (\<lambda>w. write_name w = m) es"
    "texts_follow (layout (form_of st)) es (layout (form_of (g st)))" by blast
  from es(2) mn have other: "list_all (\<lambda>w. write_name w \<noteq> n) es"
    by (auto simp: list_all_iff)
  from inv have 1: "elements (form_of st) n = Some input"
    and 2: "list_all (\<lambda>w. write_name w \<noteq> n) (writes_of st)"
    and 3: "texts_follow (layout frm) (writes_of st) (layout (form_of st))"
    and 4: "\<And>p. is_group (layout frm) p \<Longrightarrow> is_group (layout (form_of st)) p"
    unfolding before_step_def by blast+
  show ?thesis
    unfolding before_step_def
    using local_stepD(2) [OF loc, of n st] mn 1 2 other es(1) texts_follow_trans [OF 3 es(3)]
      local_stepD(4) [OF loc, of st] 4
    by simp
qed

lemma local_step_after:
  assumes loc: "local_step m g" and mn: "m \<noteq> n" and inv: "after_step frm n tgt ws st"
  shows "after_step frm n tgt ws (g st)"
proof -
  from local_stepD(3) [OF loc, of st] obtain es where es: "writes_of (g st) = writes_of st @ es"
    "list_all (\<lambda>w. write_name w = m) es"
    "texts_follow (layout (form_of st)) es (layout (form_of (g st)))" by blast
  from es(2) mn have other: "list_all (\<lambda>w. write_name w \<noteq> n) es"
    by (auto simp: list_all_iff)
  from inv have 0: "\<not> fst st" and 1: "elements (form_of st) n = Some tgt"
    and 3: "texts_follow (layout frm) (writes_of st) (layout (form_of st))"
    unfolding after_step_def by blast+
  from inv obtain pre post where pp: "writes_of st = pre @ ws @ post"
    "list_all (\<lambda>w. write_name w \<noteq> n) pre" "ws = [] \<longrightarrow> list_all (\<lambda>w. write_name w \<noteq> n) post"
    unfolding after_step_def by blast
  have w: "writes_of (g st) = pre @ ws @ (post @ es) \<and> list_all (\<lambda>w. write_name w \<noteq> n) pre
      \<and> (ws = [] \<longrightarrow> list_all (\<lambda>w. write_name w \<noteq> n) (post @ es))"
    using pp es(1) other by simp
  then have ex: "\<exists>pre post. writes_of (g st) = pre @ ws @ post \<and> list_all (\<lambda>w. write_name w \<noteq> n) pre
      \<and> (ws = [] \<longrightarrow> list_all (\<lambda>w. write_name w \<noteq> n) post)"
    by blast
  have t: "texts_follow (layout frm) (writes_of (g st)) (layout (form_of (g st)))"
    unfolding es(1) by (rule texts_follow_trans [OF 3 es(3)])
  have e: "elements (form_of (g st)) n = Some tgt"
    using local_stepD(2) [OF loc, of n st] mn 1 by simp
  show ?thesis
    unfolding after_step_def
    using local_stepD(1) [OF loc 0] e ex t by blast
qed

text \<open>The step of the blank field itself, in \<open>function.js\<close> and in the second script.\<close>

lemma required_step_blank:
  assumes inv: "before_step frm (rname rf) input st" and blank: "trim (fvalue input) = []"
  shows "after_step frm (rname rf)
           (input\<lparr>classList := classList_remove (classList_add (classList input) (js ''invalid'')) (js ''valid'')\<rparr>)
           (errorSpan_write (rname rf) (layout (form_of st)) (parent input) (rlabel rf @ js '' is required''))
           (required_step rf st)"
proof -
  from inv have 1: "elements (form_of st) (rname rf) = Some input"
    and 2: "list_all (\<lambda>w. write_name w \<noteq> rname rf) (writes_of st)"
    and 3: "texts_follow (layout frm) (writes_of st) (layout (form_of st))"
    unfolding before_step_def by blast+
  let ?msg = "rlabel rf @ js '' is required''"
  let ?ws = "errorSpan_write (rname rf) (layout (form_of st)) (parent input) ?msg"
  have eq: "required_step rf st = (False, set_error (rname rf) input ?msg (snd st))"
    by (simp add: required_step_def 1 blank truthy_def)
  have w: "writes_of (required_step rf st) = writes_of st @ ?ws @ []"
    by (simp add: eq writes_of_def set_error_def form_of_def)
  have l: "layout (form_of (required_step rf st)) = set_errorSpan (layout (form_of st)) (parent input) ?msg"
    by (simp add: eq form_of_def set_error_def store_field_def setFieldError_def)
  have t: "texts_follow (layout frm) (writes_of (required_step rf st)) (layout (form_of (required_step rf st)))"
    unfolding l w using texts_follow_trans [OF 3 texts_follow_set_errorSpan] by simp
  have e: "elements (form_of (required_step rf st)) (rname rf) =
      Some (input\<lparr>classList := classList_remove (classList_add (classList input) (js ''invalid'')) (js ''valid'')\<rparr>)"
    by (simp add: eq form_of_def set_error_def store_field_def setFieldError_def)
  have f: "\<not> fst (required_step rf st)" by (simp add: eq)
  show ?thesis
    unfolding after_step_def
    using f e t w 2 by (intro conjI exI [of _ "writes_of st"] exI [of _ "[]"]) simp_all
qed

lemma required_step_inline_blank:
  assumes inv: "before_step frm (fst ri) input st" and blank: "trim (fvalue input) = []"
  shows "after_step frm (fst ri)
           (input\<lparr>borderColor := js ''#dc3545'', backgroundColor := js ''#fff5f5''\<rparr>)
           (markInvalid_write (fst ri) (layout (form_of st)) (parent input) (snd ri @ js '' is required''))
           (required_step_inline ri st)"
proof -
  from inv have 1: "elements (form_of st) (fst ri) = Some input"
    and 2: "list_all (\<lambda>w. write_name w \<noteq> fst ri) (writes_of st)"
    and 3: "texts_follow (layout frm) (writes_of st) (layout (form_of st))"
    unfolding before_step_def by blast+
  let ?msg = "snd ri @ js '' is required''"
  let ?ws = "markInvalid_write (fst ri) (layout (form_of st)) (parent input) ?msg"
  have eq: "required_step_inline ri st = (False, mark_invalid (fst ri) input ?msg (snd st))"
    by (simp add: required_step_inline_def 1 blank truthy_def)
  have w: "writes_of (required_step_inline ri st) = writes_of st @ ?ws @ []"
    by (simp add: eq writes_of_def mark_invalid_def form_of_def)
  have l: "layout (form_of (required_step_inline ri st)) = snd (markInvalid input ?msg (layout (form_of st)))"
    by (simp add: eq form_of_def mark_invalid_def store_field_def)
  have t: "texts_follow (layout frm) (writes_of (required_step_inline ri st))
             (layout (form_of (required_step_inline ri st)))"
    unfolding l w using texts_follow_trans [OF 3 texts_follow_markInvalid] by simp
  have e: "elements (form_of (required_step_inline ri st)) (fst ri) =
      Some (input\<lparr>borderColor := js ''#dc3545'', backgroundColor := js ''#fff5f5''\<rparr>)"
    by (simp add: eq form_of_def mark_invalid_def store_field_def markInvalid_def)
  have f: "\<not> fst (required_step_inline ri st)" by (simp add: eq)
  show ?thesis
    unfolding after_step_def
    using f e t w 2 by (intro conjI exI [of _ "writes_of st"] exI [of _ "[]"]) simp_all
qed

text \<open>A format check of the second script does nothing on a blank field.\<close>

lemma format_step_inline_keeps:
  assumes inv: "after_step frm n tgt ws st" and blank: "trim (fvalue tgt) = []"
  shows "after_step frm n tgt ws (format_step_inline m v msg st)"
proof (cases "m = n")
  case True
  from inv have "elements (form_of st) n = Some tgt" unfolding after_step_def by blast
  with True blank have "format_step_inline m v msg st = st"
    by (simp add: format_step_inline_def truthy_def)
  with inv show ?thesis by simp
next
  case False
  then show ?thesis by (rule local_step_after [OF local_format_step_inline _ inv])
qed

text \<open>What the state after the run says about the writes and the text.\<close>

lemma find_skip:
  "list_all (\<lambda>w. \<not> P w) pre \<Longrightarrow> find P (pre @ xs) = find P xs"
  by (induction pre) simp_all

lemma dropWhile_skip:
  "list_all (\<lambda>w. \<not> P w) pre \<Longrightarrow> dropWhile (\<lambda>w. \<not> P w) (pre @ xs) = dropWhile (\<lambda>w. \<not> P w) xs"
  by (induction pre) simp_all

lemma after_step_written:
  assumes "after_step frm n tgt [(n, q, msg)] st"
  shows "first_write n (writes_of st) = Some (n, q, msg)"
    and "list_all (\<lambda>w. write_target w \<noteq> q) (later_writes n (writes_of st))
           \<Longrightarrow> text_at (layout (form_of st)) q = Some msg"
proof -
  from assms obtain pre post where pp: "writes_of st = pre @ [(n, q, msg)] @ post"
    "list_all (\<lambda>w. write_name w \<noteq> n) pre"
    and t: "texts_follow (layout frm) (writes_of st) (layout (form_of st))"
    unfolding after_step_def by blast
  have pre: "list_all (\<lambda>w. \<not> write_name w = n) pre" using pp(2) by simp
  have nm: "write_name (n, q, msg) = n" by (simp add: write_name_def)
  have "find (\<lambda>w. write_name w = n) (pre @ (n, q, msg) # post) = Some (n, q, msg)"
    unfolding find_skip [of "\<lambda>w. write_name w = n" pre, OF pre] using nm by simp
  then show "first_write n (writes_of st) = Some (n, q, msg)"
    unfolding first_write_def pp(1) by simp
  have "dropWhile (\<lambda>w. write_name w \<noteq> n) (pre @ (n, q, msg) # post) = (n, q, msg) # post"
    unfolding dropWhile_skip [of "\<lambda>w. write_name w = n" pre, OF pre] using nm by simp
  then have later: "later_writes n (writes_of st) = post"
    unfolding later_writes_def pp(1) by simp
  assume "list_all (\<lambda>w. write_target w \<noteq> q) (later_writes n (writes_of st))"
  then have "filter (\<lambda>w. write_target w = q) post = []"
    unfolding later by (simp add: list_all_iff filter_empty_conv)
  then have "last_write (writes_of st) q = Some msg"
    unfolding pp(1)
    by (cases "filter (\<lambda>w. write_target w = q) pre")
      (simp_all add: last_write_def write_target_def write_text_def)
  with t show "text_at (layout (form_of st)) q = Some msg"
    unfolding texts_follow_def by simp
qed

lemma after_step_unwritten:
  assumes "after_step frm n tgt [] st"
  shows "first_write n (writes_of st) = None"
proof -
  from assms obtain pre post where pp: "writes_of st = pre @ [] @ post"
    "list_all (\<lambda>w. write_name w \<noteq> n) pre" "list_all (\<lambda>w. write_name w \<noteq> n) post"
    unfolding after_step_def by blast
  then show ?thesis
    by (auto simp: first_write_def find_None_iff list_all_iff)
qed

lemma requiredFields_distinct: "distinct (map rname requiredFields)"
  by (simp add: requiredFields_def js_def cu_def)

lemma requiredFields_not_optional:
  "rf \<in> set requiredFields \<Longrightarrow> rname rf \<notin> set phoneFields \<and> rname rf \<noteq> js ''url''"
  by (auto simp: requiredFields_def phoneFields_def js_def cu_def)

lemma requiredFields_inline_distinct: "distinct (map fst requiredFields_inline)"
  by (simp add: requiredFields_inline_def js_def cu_def)

lemma split_distinct:
  assumes "distinct (map f xs)" and "x \<in> set xs"
  shows "\<exists>pre post. xs = pre @ x # post \<and> f x \<notin> f ` set pre \<and> f x \<notin> f ` set post"
proof -
  from assms(2) obtain pre post where xs: "xs = pre @ x # post"
    by (auto dest: split_list)
  with assms(1) show ?thesis by auto
qed

text \<open>The whole run of \<open>validateForm\<close> of \<open>function.js\<close> on a form with a blank required field.\<close>

lemma validateForm_required_blank:
  assumes rf: "rf \<in> set requiredFields"
    and el: "elements frm (rname rf) = Some input"
    and blank: "trim (fvalue input) = []"
  shows "after_step frm (rname rf)
           (input\<lparr>classList := classList_remove (classList_add (classList input) (js ''invalid'')) (js ''valid'')\<rparr>)
           (errorSpan_write (rname rf) (layout frm) (parent input) (rlabel rf @ js '' is required''))
           (validateForm U frm)"
proof -
  let ?n = "rname rf"
  let ?tgt = "input\<lparr>classList := classList_remove (classList_add (classList input) (js ''invalid'')) (js ''valid'')\<rparr>"
  let ?ws = "errorSpan_write ?n (layout frm) (parent input) (rlabel rf @ js '' is required'')"
  let ?I = "\<lambda>st. before_step frm ?n input st
              \<and> (\<forall>p. errorElement (layout (form_of st)) p = errorElement (layout frm) p)"
  from split_distinct [OF requiredFields_distinct rf]
  obtain pre post where spl: "requiredFields = pre @ rf # post"
    and pre: "?n \<notin> rname ` set pre" and post: "?n \<notin> rname ` set post" by blast
  have other: "\<And>x. x \<in> set pre \<Longrightarrow> rname x \<noteq> ?n" "\<And>x. x \<in> set post \<Longrightarrow> rname x \<noteq> ?n"
    using pre post by (auto simp: image_iff)
  define st1 where "st1 = fold required_step pre (True, frm, [])"
  define st2 where "st2 = required_step rf st1"
  define st3 where "st3 = fold required_step post st2"
  define st4 where "st4 = fold phone_step phoneFields st3"
  have vf: "validateForm U frm = url_step U st4"
    by (simp add: validateForm_def spl st1_def st2_def st3_def st4_def)
  have i1: "?I st1"
    unfolding st1_def
  proof (rule fold_invariant)
    show "?I (True, frm, [])"
      using before_step_init [OF el] by (simp add: form_of_def)
  next
    fix x st assume x: "x \<in> set pre" and I: "?I st"
    from I have "\<forall>p. errorElement (layout (form_of (required_step x st))) p = errorElement (layout frm) p"
      using static_stepD [OF static_required_step, of x st] by simp
    with local_step_before [OF local_required_step other(1) [OF x]] I
    show "?I (required_step x st)" by blast
  qed
  then have same: "errorSpan_write ?n (layout (form_of st1)) (parent input) (rlabel rf @ js '' is required'') = ?ws"
    by (simp add: errorSpan_write_def)
  from i1 required_step_blank [of frm rf input st1, OF _ blank]
  have i2: "after_step frm ?n ?tgt ?ws st2"
    unfolding st2_def same by blast
  have i3: "after_step frm ?n ?tgt ?ws st3"
    unfolding st3_def
  proof (rule fold_invariant)
    show "after_step frm ?n ?tgt ?ws st2" by (rule i2)
  next
    fix x st assume x: "x \<in> set post" and "after_step frm ?n ?tgt ?ws st"
    then show "after_step frm ?n ?tgt ?ws (required_step x st)"
      by (intro local_step_after [OF local_required_step other(2) [OF x]])
  qed
  have i4: "after_step frm ?n ?tgt ?ws st4"
    unfolding st4_def
  proof (rule fold_invariant)
    show "after_step frm ?n ?tgt ?ws st3" by (rule i3)
  next
    fix x st assume x: "x \<in> set phoneFields" and a: "after_step frm ?n ?tgt ?ws st"
    from x requiredFields_not_optional [OF rf] have "x \<noteq> ?n" by auto
    then show "after_step frm ?n ?tgt ?ws (phone_step x st)"
      by (rule local_step_after [OF local_phone_step _ a])
  qed
  from requiredFields_not_optional [OF rf] have "js ''url'' \<noteq> ?n" by auto
  then show ?thesis
    unfolding vf by (rule local_step_after [OF local_url_step _ i4])
qed

text \<open>The same for the second script.\<close>

lemma validateForm_inline_required_blank:
  assumes ri: "ri \<in> set requiredFields_inline"
    and el: "elements frm (fst ri) = Some input"
    and blank: "trim (fvalue input) = []"
  shows "\<exists>doc. (is_group (layout frm) (parent input) \<longrightarrow> is_group doc (parent input))
           \<and> after_step frm (fst ri)
               (input\<lparr>borderColor := js ''#dc3545'', backgroundColor := js ''#fff5f5''\<rparr>)
               (markInvalid_write (fst ri) doc (parent input) (snd ri @ js '' is required''))
               (validateForm_inline U frm)"
proof -
  let ?n = "fst ri"
  let ?tgt = "input\<lparr>borderColor := js ''#dc3545'', backgroundColor := js ''#fff5f5''\<rparr>"
  from split_distinct [OF requiredFields_inline_distinct ri]
  obtain pre post where spl: "requiredFields_inline = pre @ ri # post"
    and pre: "?n \<notin> fst ` set pre" and post: "?n \<notin> fst ` set post" by blast
  have other: "\<And>x. x \<in> set pre \<Longrightarrow> fst x \<noteq> ?n" "\<And>x. x \<in> set post \<Longrightarrow> fst x \<noteq> ?n"
    using pre post by (auto simp: image_iff)
  have blank': "trim (fvalue ?tgt) = []" using blank by simp
  define st1 where "st1 = fold required_step_inline pre (True, frm, [])"
  let ?ws = "markInvalid_write ?n (layout (form_of st1)) (parent input) (snd ri @ js '' is required'')"
  define st2 where "st2 = required_step_inline ri st1"
  define st3 where "st3 = fold required_step_inline post st2"
  define st4 where "st4 = format_step_inline (js ''email'') isValidEmail (js ''Please enter a valid email address'') st3"
  define st5 where "st5 = format_step_inline (js ''phone'') isValidPhone (js ''Please enter a valid phone number'') st4"
  define st6 where "st6 = format_step_inline (js ''mobile'') isValidPhone (js ''Please enter a valid mobile number'') st5"
  have vf: "validateForm_inline U frm =
      format_step_inline (js ''url'') (isValidURL U) (js ''Please enter a valid website URL'') st6"
    by (simp add: validateForm_inline_def spl st1_def st2_def st3_def st4_def st5_def st6_def)
  have i1: "before_step frm ?n input st1"
    unfolding st1_def
  proof (rule fold_invariant)
    show "before_step frm ?n input (True, frm, [])" by (rule before_step_init [OF el])
  next
    fix x st assume x: "x \<in> set pre" and "before_step frm ?n input st"
    then show "before_step frm ?n input (required_step_inline x st)"
      by (intro local_step_before [OF local_required_step_inline other(1) [OF x]])
  qed
  then have g: "is_group (layout frm) (parent input) \<longrightarrow> is_group (layout (form_of st1)) (parent input)"
    unfolding before_step_def by blast
  have i2: "after_step frm ?n ?tgt ?ws st2"
    unfolding st2_def by (rule required_step_inline_blank [OF i1 blank])
  have i3: "after_step frm ?n ?tgt ?ws st3"
    unfolding st3_def
  proof (rule fold_invariant)
    show "after_step frm ?n ?tgt ?ws st2" by (rule i2)
  next
    fix x st assume x: "x \<in> set post" and "after_step frm ?n ?tgt ?ws st"
    then show "after_step frm ?n ?tgt ?ws (required_step_inline x st)"
      by (intro local_step_after [OF local_required_step_inline other(2) [OF x]])
  qed
  have i4: "after_step frm ?n ?tgt ?ws st4"
    unfolding st4_def by (rule format_step_inline_keeps [OF i3 blank'])
  have i5: "after_step frm ?n ?tgt ?ws st5"
    unfolding st5_def by (rule format_step_inline_keeps [OF i4 blank'])
  have i6: "after_step frm ?n ?tgt ?ws st6"
    unfolding st6_def by (rule format_step_inline_keeps [OF i5 blank'])
  have i7: "after_step frm ?n ?tgt ?ws (validateForm_inline U frm)"
    unfolding vf by (rule format_step_inline_keeps [OF i6 blank'])
  from g i7 show ?thesis by blast
qed

lemma markInvalid_write_group:
  "is_group doc p \<Longrightarrow> \<exists>q r. markInvalid_write n doc p m = [(n, q, m)] \<and> q = p @ r"
proof (cases "errorElement doc p")
  case (Some q)
  with errorElement_prefix [OF Some] show ?thesis by (simp add: markInvalid_write_def)
next
  case None
  assume "is_group doc p"
  then obtain q where q: "new_child doc p = Some q"
    using new_child_is_group [of doc p] by auto
  with None new_child_prefix [OF q] show ?thesis by (simp add: markInvalid_write_def)
qed

text \<open>
  C2, as amended. When one of the required fields \<open>first_name\<close>, \<open>last_name\<close>,
  \<open>email\<close>, \<open>company\<close> is present with a value that is empty once trimmed,
  \<open>validateForm\<close> returns false and leaves the field marked invalid: in \<open>function.js\<close>
  with the class \<open>invalid\<close> and without \<open>valid\<close>, in the second script with the red
  border and background. As for the message \<open><Label> is required\<close>:
  \<^item> in \<open>function.js\<close>, the first write made for the field goes to the first element
    of class \<open>error-message\<close> among the descendants of the field's parent, with that
    message; when the parent has no such descendant, nothing is written for the field;
  \<^item> in the second script, for a field whose parent is an element of the form, the
    first write made for the field goes to an element that lies under the parent,
    with that message (the script creates the element when there is none);
  \<^item> in both, the element written reads the message when \<open>validateForm\<close> returns,
    provided that none of the writes made after it goes to the same element.
\<close>

theorem blank_required_field_blocks:
  assumes "trim (fvalue input) = []"
  shows "(rf \<in> set requiredFields \<and> elements frm (rname rf) = Some input \<longrightarrow>
            \<not> fst (validateForm U frm)
            \<and> (\<exists>f. elements (form_of (validateForm U frm)) (rname rf) = Some f
                  \<and> js ''invalid'' \<in> set (classList f) \<and> js ''valid'' \<notin> set (classList f))
            \<and> first_write (rname rf) (writes_of (validateForm U frm))
                = map_option (\<lambda>q. (rname rf, q, rlabel rf @ js '' is required''))
                    (errorElement (layout frm) (parent input))
            \<and> (\<forall>q. errorElement (layout frm) (parent input) = Some q
                     \<and> list_all (\<lambda>w. write_target w \<noteq> q)
                          (later_writes (rname rf) (writes_of (validateForm U frm)))
                  \<longrightarrow> text_at (layout (form_of (validateForm U frm))) q
                        = Some (rlabel rf @ js '' is required'')))
       \<and> (ri \<in> set requiredFields_inline \<and> elements frm (fst ri) = Some input \<longrightarrow>
            \<not> fst (validateForm_inline U frm)
            \<and> (\<exists>f. elements (form_of (validateForm_inline U frm)) (fst ri) = Some f
                  \<and> borderColor f = js ''#dc3545'' \<and> backgroundColor f = js ''#fff5f5'')
            \<and> (is_group (layout frm) (parent input) \<longrightarrow>
                 (\<exists>q r. q = parent input @ r
                    \<and> first_write (fst ri) (writes_of (validateForm_inline U frm))
                        = Some (fst ri, q, snd ri @ js '' is required'')
                    \<and> (list_all (\<lambda>w. write_target w \<noteq> q)
                          (later_writes (fst ri) (writes_of (validateForm_inline U frm)))
                        \<longrightarrow> text_at (layout (form_of (validateForm_inline U frm))) q
                              = Some (snd ri @ js '' is required'')))))"
proof (intro conjI impI allI; (elim conjE)?)
  assume rf: "rf \<in> set requiredFields" and el: "elements frm (rname rf) = Some input"
  note r = validateForm_required_blank [OF rf el assms, of U]
  from r show "\<not> fst (validateForm U frm)" unfolding after_step_def by blast
  from r have "elements (form_of (validateForm U frm)) (rname rf) =
      Some (input\<lparr>classList := classList_remove (classList_add (classList input) (js ''invalid'')) (js ''valid'')\<rparr>)"
    unfolding after_step_def by blast
  then show "\<exists>f. elements (form_of (validateForm U frm)) (rname rf) = Some f
                  \<and> js ''invalid'' \<in> set (classList f) \<and> js ''valid'' \<notin> set (classList f)"
    by (simp add: classList_add_def classList_remove_def valid_neq_invalid)
  show "first_write (rname rf) (writes_of (validateForm U frm))
          = map_option (\<lambda>q. (rname rf, q, rlabel rf @ js '' is required''))
              (errorElement (layout frm) (parent input))"
  proof (cases "errorElement (layout frm) (parent input)")
    case None
    with r have "after_step frm (rname rf)
        (input\<lparr>classList := classList_remove (classList_add (classList input) (js ''invalid'')) (js ''valid'')\<rparr>)
        [] (validateForm U frm)"
      by (simp add: errorSpan_write_def)
    from after_step_unwritten [OF this] None show ?thesis by simp
  next
    case (Some q)
    with r have "after_step frm (rname rf)
        (input\<lparr>classList := classList_remove (classList_add (classList input) (js ''invalid'')) (js ''valid'')\<rparr>)
        [(rname rf, q, rlabel rf @ js '' is required'')] (validateForm U frm)"
      by (simp add: errorSpan_write_def)
    from after_step_written(1) [OF this] Some show ?thesis by simp
  qed
  fix q
  assume q: "errorElement (layout frm) (parent input) = Some q"
    and later: "list_all (\<lambda>w. write_target w \<noteq> q) (later_writes (rname rf) (writes_of (validateForm U frm)))"
  from q r have "after_step frm (rname rf)
      (input\<lparr>classList := classList_remove (classList_add (classList input) (js ''invalid'')) (js ''valid'')\<rparr>)
      [(rname rf, q, rlabel rf @ js '' is required'')] (validateForm U frm)"
    by (simp add: errorSpan_write_def)
  from after_step_written(2) [OF this later]
  show "text_at (layout (form_of (validateForm U frm))) q = Some (rlabel rf @ js '' is required'')" .
next
  assume ri: "ri \<in> set requiredFields_inline" and el: "elements frm (fst ri) = Some input"
  from validateForm_inline_required_blank [OF ri el assms, of U]
  obtain doc where g: "is_group (layout frm) (parent input) \<longrightarrow> is_group doc (parent input)"
    and r: "after_step frm (fst ri)
               (input\<lparr>borderColor := js ''#dc3545'', backgroundColor := js ''#fff5f5''\<rparr>)
               (markInvalid_write (fst ri) doc (parent input) (snd ri @ js '' is required''))
               (validateForm_inline U frm)"
    by blast
  from r show "\<not> fst (validateForm_inline U frm)" unfolding after_step_def by blast
  from r have "elements (form_of (validateForm_inline U frm)) (fst ri) =
      Some (input\<lparr>borderColor := js ''#dc3545'', backgroundColor := js ''#fff5f5''\<rparr>)"
    unfolding after_step_def by blast
  then show "\<exists>f. elements (form_of (validateForm_inline U frm)) (fst ri) = Some f
                  \<and> borderColor f = js ''#dc3545'' \<and> backgroundColor f = js ''#fff5f5''"
    by simp
  assume "is_group (layout frm) (parent input)"
  with g have "is_group doc (parent input)" by simp
  from markInvalid_write_group [OF this, of "fst ri" "snd ri @ js '' is required''"]
  obtain q r' where w: "markInvalid_write (fst ri) doc (parent input) (snd ri @ js '' is required'')
      = [(fst ri, q, snd ri @ js '' is required'')]" and q: "q = parent input @ r'"
    by blast
  note a = r [unfolded w]
  from q after_step_written(1) [OF a] after_step_written(2) [OF a]
  show "\<exists>q r. q = parent input @ r
          \<and> first_write (fst ri) (writes_of (validateForm_inline U frm))
              = Some (fst ri, q, snd ri @ js '' is required'')
          \<and> (list_all (\<lambda>w. write_target w \<noteq> q)
                (later_writes (fst ri) (writes_of (validateForm_inline U frm)))
              \<longrightarrow> text_at (layout (form_of (validateForm_inline U frm))) q
                    = Some (snd ri @ js '' is required''))"
    by blast
qed

lemma form_own_error_elements_writes:
  "writes_of (validateForm new_URL form_own_error_elements) =
     [(js ''first_name'', [0, 0], js ''First Name is required''), (js ''last_name'', [1, 0], [])]"
  "writes_of (validateForm_inline new_URL form_own_error_elements) =
     [(js ''first_name'', [0, 0], js ''First Name is required''), (js ''last_name'', [1, 0], [])]"
  by (simp_all add: form_own_error_elements_def validateForm_defs validateForm_inline_defs
        form_defs char_defs)

lemma form_own_error_elements_later:
  "list_all (\<lambda>w. write_target w \<noteq> [0, 0])
     (later_writes (js ''first_name'') (writes_of (validateForm new_URL form_own_error_elements)))"
  "list_all (\<lambda>w. write_target w \<noteq> [0, 0])
     (later_writes (js ''first_name'')
        (writes_of (validateForm_inline new_URL form_own_error_elements)))"
  "first_write (js ''first_name'') (writes_of (validateForm_inline new_URL form_own_error_elements))
     = Some (js ''first_name'', [0, 0], js ''First Name is required'')"
  unfolding form_own_error_elements_writes
  by (simp_all add: later_writes_def first_write_def write_name_def write_target_def char_defs)

theorem blank_required_field_blocks_witness:
  "trim (fvalue (text_field ''  '' [0])) = []
   \<and> \<lparr>rname = js ''first_name'', rlabel = js ''First Name'', rtype = js ''text''\<rparr> \<in> set requiredFields
   \<and> (js ''first_name'', js ''First Name'') \<in> set requiredFields_inline
   \<and> elements form_own_error_elements (js ''first_name'') = Some (text_field ''  '' [0])
   \<and> errorElement (layout form_own_error_elements) [0] = Some [0, 0]
   \<and> is_group (layout form_own_error_elements) [0]
   \<and> list_all (\<lambda>w. write_target w \<noteq> [0, 0])
        (later_writes (js ''first_name'') (writes_of (validateForm new_URL form_own_error_elements)))
   \<and> list_all (\<lambda>w. write_target w \<noteq> [0, 0])
        (later_writes (js ''first_name'')
           (writes_of (validateForm_inline new_URL form_own_error_elements)))
   \<and> \<not> fst (validateForm new_URL form_own_error_elements)
   \<and> first_write (js ''first_name'') (writes_of (validateForm new_URL form_own_error_elements))
        = Some (js ''first_name'', [0, 0], js ''First Name is required'')
   \<and> text_at (layout (form_of (validateForm new_URL form_own_error_elements))) [0, 0]
        = Some (js ''First Name is required'')
   \<and> \<not> fst (validateForm_inline new_URL form_own_error_elements)
   \<and> text_at (layout (form_of (validateForm_inline new_URL form_own_error_elements))) [0, 0]
        = Some (js ''First Name is required'')"
proof -
  let ?rf = "\<lparr>rname = js ''first_name'', rlabel = js ''First Name'', rtype = js ''text''\<rparr>"
  let ?ri = "(js ''first_name'', js ''First Name'')"
  have blank: "trim (fvalue (text_field ''  '' [0])) = []"
    by (simp add: text_field_def trim_def char_defs)
  have rf: "?rf \<in> set requiredFields" by (simp add: requiredFields_def)
  have ri: "?ri \<in> set requiredFields_inline" by (simp add: requiredFields_inline_def)
  have el: "elements form_own_error_elements (js ''first_name'') = Some (text_field ''  '' [0])"
    by (simp add: form_own_error_elements_def js_def cu_def)
  have ee: "errorElement (layout form_own_error_elements) [0] = Some [0, 0]"
    by (simp add: form_own_error_elements_def errorElement_def)
  have gr: "is_group (layout form_own_error_elements) [0]"
    by (simp add: form_own_error_elements_def is_group_def)
  have par: "parent (text_field v p) = p" for v p by (simp add: text_field_def)
  have msg: "js ''First Name'' @ js '' is required'' = js ''First Name is required''"
    by (simp add: js_def)
  note inst = blank_required_field_blocks [OF blank, of ?rf form_own_error_elements new_URL ?ri,
      unfolded par]
  from inst rf el ee form_own_error_elements_later(1)
  have a: "\<not> fst (validateForm new_URL form_own_error_elements)
      \<and> first_write (js ''first_name'') (writes_of (validateForm new_URL form_own_error_elements))
          = Some (js ''first_name'', [0, 0], js ''First Name is required'')
      \<and> text_at (layout (form_of (validateForm new_URL form_own_error_elements))) [0, 0]
          = Some (js ''First Name is required'')"
    by (simp add: msg)
  from inst ri el gr form_own_error_elements_later(2,3)
  have b: "\<not> fst (validateForm_inline new_URL form_own_error_elements)
      \<and> text_at (layout (form_of (validateForm_inline new_URL form_own_error_elements))) [0, 0]
          = Some (js ''First Name is required'')"
    by (auto simp: msg)
  from a b blank rf ri el ee gr form_own_error_elements_later(1,2) show ?thesis by blast
qed

text \<open>
  C2 as stated fails for the message. In \<open>function.js\<close>, a blank first name whose
  parent has no error element below it is given the class \<open>invalid\<close>, nothing is
  written, and the form has no error element afterwards. In both scripts, when the
  blank first name lies directly under the form and the filled-in last name in a
  \<open>div\<close> with the only error element, the message for the first name is written to
  that element and removed again when the last name is validated: the element is
  empty when \<open>validateForm\<close> returns.
\<close>

theorem blank_required_field_message_counterexample:
  "elements form_without_error_element (js ''first_name'') = Some (text_field ''  '' [])
   \<and> trim (fvalue (text_field ''  '' [])) = []
   \<and> map_option classList (elements (form_of (validateForm new_URL form_without_error_element))
        (js ''first_name'')) = Some [js ''invalid'']
   \<and> writes_of (validateForm new_URL form_without_error_element) = []
   \<and> layout (form_of (validateForm new_URL form_without_error_element)) = Group []
   \<and> elements form_shared_error_element (js ''first_name'') = Some (text_field ''  '' [])
   \<and> writes_of (validateForm new_URL form_shared_error_element) =
        [(js ''first_name'', [0, 0], js ''First Name is required''), (js ''last_name'', [0, 0], [])]
   \<and> layout (form_of (validateForm new_URL form_shared_error_element)) = Group [Group [Message []]]
   \<and> writes_of (validateForm_inline new_URL form_shared_error_element) =
        [(js ''first_name'', [0, 0], js ''First Name is required''), (js ''last_name'', [0, 0], [])]
   \<and> layout (form_of (validateForm_inline new_URL form_shared_error_element))
        = Group [Group [Message []]]"
  by (simp add: form_without_error_element_def form_shared_error_element_def
        validateForm_defs validateForm_inline_defs form_defs char_defs)

section \<open>The debounced validation of the email field\<close>

lemma run_append:
  "run (xs @ ys) s = (case run xs s of None \<Rightarrow> None | Some s' \<Rightarrow> run ys s')"
  by (induction xs arbitrary: s) (simp_all split: option.split)

lemma run_snoc_Some:
  "run (xs @ [a]) s = Some s' \<longleftrightarrow> (\<exists>s1. run xs s = Some s1 \<and> step a s1 = Some s')"
  by (simp add: run_append split: option.split)

lemma one_timer_cases:
  "one_timer s \<longleftrightarrow> (timeout s = None \<and> pending s = []) \<or> (\<exists>i d. timeout s = Some i \<and> pending s = [(i, d)])"
  by (auto simp: one_timer_def split: option.splits list.splits)

lemma step_Input:
  assumes "one_timer s" and "step (Input t) s = Some s'"
  shows "pending s' = [(next_id s, t + 500)] \<and> timeout s' = Some (next_id s)
         \<and> calls s' = calls s \<and> now s' = t \<and> now s \<le> t"
  using assms
  by (auto simp: one_timer_cases step_def executedFunction_def setTimeout_def clearTimeout_def
        split: if_splits)

lemma step_Fire:
  assumes "one_timer s" and "step (Fire i t) s = Some s'"
  shows "pending s' = [] \<and> timeout s' = None \<and> calls s' = calls s @ [t]
         \<and> (\<exists>d. pending s = [(i, d)] \<and> d \<le> t) \<and> now s \<le> t \<and> now s' = t"
  using assms
  by (auto simp: one_timer_cases step_def later_def split: if_splits option.splits)

lemma step_one_timer: "one_timer s \<Longrightarrow> step a s = Some s' \<Longrightarrow> one_timer s'"
proof (cases a)
  case (Input t)
  assume "one_timer s" "step a s = Some s'"
  with step_Input [of s t s'] Input show ?thesis by (simp add: one_timer_cases)
next
  case (Fire i t)
  assume "one_timer s" "step a s = Some s'"
  with step_Fire [of s i t s'] Fire show ?thesis by (simp add: one_timer_cases)
qed

lemma run_one_timer: "one_timer s \<Longrightarrow> run acts s = Some s' \<Longrightarrow> one_timer s'"
  by (induction acts arbitrary: s) (auto split: option.splits dest: step_one_timer)

lemma one_timer_sched0: "one_timer sched0"
  by (simp add: one_timer_def sched0_def)

lemma run_calls:
  "one_timer s \<Longrightarrow> run acts s = Some s' \<Longrightarrow> calls s' = calls s @ concat (map fire_time acts)"
proof (induction acts arbitrary: s)
  case Nil
  then show ?case by simp
next
  case (Cons a acts)
  from Cons.prems obtain s1 where s1: "step a s = Some s1" "run acts s1 = Some s'"
    by (auto split: option.splits)
  have o1: "one_timer s1" by (rule step_one_timer [OF Cons.prems(1) s1(1)])
  have "calls s1 = calls s @ fire_time a"
  proof (cases a)
    case (Input t)
    with step_Input [OF Cons.prems(1)] s1(1) show ?thesis by (simp add: fire_time_def)
  next
    case (Fire i t)
    with step_Fire [OF Cons.prems(1)] s1(1) show ?thesis by (simp add: fire_time_def)
  qed
  with Cons.IH [OF o1 s1(2)] show ?case by simp
qed

lemma pending_origin:
  assumes "run pre sched0 = Some s" and "pending s = [(i, d)]"
  shows "\<exists>pre' t0. pre = pre' @ [Input t0] \<and> d = t0 + 500"
proof (cases pre rule: rev_cases)
  case Nil
  with assms show ?thesis by (auto simp: sched0_def)
next
  case (snoc pre' a)
  with assms(1) obtain s1 where s1: "run pre' sched0 = Some s1" "step a s1 = Some s"
    by (auto simp: run_snoc_Some)
  have o1: "one_timer s1" by (rule run_one_timer [OF one_timer_sched0 s1(1)])
  show ?thesis
  proof (cases a)
    case (Input t)
    with step_Input [OF o1] s1(2) assms(2) snoc show ?thesis by auto
  next
    case (Fire j t)
    with step_Fire [OF o1] s1(2) assms(2) show ?thesis by auto
  qed
qed

lemma fire_follows_input:
  assumes "run (pre @ Fire i t # post) sched0 = Some s"
  shows "\<exists>pre' t0. pre = pre' @ [Input t0] \<and> t0 + 500 \<le> t"
proof -
  from assms obtain s1 s2 where s1: "run pre sched0 = Some s1" and s2: "step (Fire i t) s1 = Some s2"
    by (auto simp: run_append split: option.splits)
  have o1: "one_timer s1" by (rule run_one_timer [OF one_timer_sched0 s1])
  from step_Fire [OF o1 s2] obtain d where d: "pending s1 = [(i, d)]" "d \<le> t" by blast
  from pending_origin [OF s1 d(1)] d(2) show ?thesis by auto
qed

lemma after_input:
  assumes "run (pre @ [Input t]) sched0 = Some s"
  shows "\<exists>i. pending s = [(i, t + 500)] \<and> timeout s = Some i \<and> now s = t"
proof -
  from assms obtain s1 where s1: "run pre sched0 = Some s1" "step (Input t) s1 = Some s"
    by (auto simp: run_snoc_Some)
  have o1: "one_timer s1" by (rule run_one_timer [OF one_timer_sched0 s1(1)])
  from step_Input [OF o1 s1(2)] show ?thesis by blast
qed

lemma can_fire:
  assumes "pending s = [(i, d)]" and "now s \<le> t" and "d \<le> t"
  shows "\<exists>s'. step (Fire i t) s = Some s' \<and> calls s' = calls s @ [t]"
  using assms by (simp add: step_def later_def)

text \<open>
  C7. Along every sequence of input events on the email field and firings of timers
  that the platform can produce from the initial state: \<open>func\<close>, which validates
  the field, is called exactly when a timer fires; at most one timer is pending; right
  after an input event at time \<open>t\<close> the one pending timer is the new one, due at
  \<open>t + 500\<close>, which cannot fire before and can fire from then on; and every firing comes
  directly after an input event, with no other input event or firing in between, and
  at least 500 milliseconds after it. So the validation runs at most once after the
  last of a run of input events, and not earlier than 500 milliseconds after it.
\<close>

theorem debounce_quiet_period:
  assumes "run acts sched0 = Some s"
  shows "calls s = concat (map fire_time acts)
     \<and> length (pending s) \<le> 1
     \<and> (\<forall>pre t. acts = pre @ [Input t] \<longrightarrow>
          (\<exists>i. pending s = [(i, t + 500)] \<and> timeout s = Some i
             \<and> (\<forall>t'. t + 500 \<le> t' \<longrightarrow> (\<exists>s'. step (Fire i t') s = Some s' \<and> calls s' = calls s @ [t']))
             \<and> (\<forall>t'. t' < t + 500 \<longrightarrow> step (Fire i t') s = None)))
     \<and> (\<forall>pre i t post. acts = pre @ Fire i t # post \<longrightarrow>
          (\<exists>pre' t0. pre = pre' @ [Input t0] \<and> t0 + 500 \<le> t))"
proof (intro conjI allI impI)
  have o: "one_timer s" by (rule run_one_timer [OF one_timer_sched0 assms])
  from run_calls [OF one_timer_sched0 assms] show "calls s = concat (map fire_time acts)"
    by (simp add: sched0_def)
  from o show "length (pending s) \<le> 1" by (auto simp: one_timer_cases)
next
  fix pre t assume "acts = pre @ [Input t]"
  with after_input [of pre t s] assms obtain i where
    i: "pending s = [(i, t + 500)]" "timeout s = Some i" "now s = t" by auto
  have a: "\<exists>s'. step (Fire i t') s = Some s' \<and> calls s' = calls s @ [t']" if "t + 500 \<le> t'" for t'
    using can_fire [OF i(1), of t'] i(3) that by simp
  have b: "step (Fire i t') s = None" if "t' < t + 500" for t'
    using i that by (simp add: step_def)
  from i a b show "\<exists>i. pending s = [(i, t + 500)] \<and> timeout s = Some i
             \<and> (\<forall>t'. t + 500 \<le> t' \<longrightarrow> (\<exists>s'. step (Fire i t') s = Some s' \<and> calls s' = calls s @ [t']))
             \<and> (\<forall>t'. t' < t + 500 \<longrightarrow> step (Fire i t') s = None)"
    by blast
next
  fix pre i t post assume "acts = pre @ Fire i t # post"
  with fire_follows_input [of pre i t post s] assms
  show "\<exists>pre' t0. pre = pre' @ [Input t0] \<and> t0 + 500 \<le> t" by simp
qed


theorem debounce_quiet_period_witness:
  "run [Input 0, Input 100] sched0
     = Some \<lparr>now = 100, pending = [(1, 600)], next_id = 2, timeout = Some 1, calls = []\<rparr>
   \<and> step (Fire 1 599) \<lparr>now = 100, pending = [(1, 600)], next_id = 2, timeout = Some 1, calls = []\<rparr>
       = None
   \<and> run [Input 0, Input 100, Fire 1 600] sched0
       = Some \<lparr>now = 600, pending = [], next_id = 2, timeout = None, calls = [600]\<rparr>
   \<and> (\<exists>pre' t0. [Input 0, Input 100] = pre' @ [Input t0] \<and> t0 + 500 \<le> (600::nat))"
proof -
  have r1: "run [Input 0, Input 100] sched0
     = Some \<lparr>now = 100, pending = [(1, 600)], next_id = 2, timeout = Some 1, calls = []\<rparr>"
    by (simp add: step_def executedFunction_def setTimeout_def clearTimeout_def sched0_def)
  have r2: "run [Input 0, Input 100, Fire 1 600] sched0
       = Some \<lparr>now = 600, pending = [], next_id = 2, timeout = None, calls = [600]\<rparr>"
    by (simp add: step_def executedFunction_def setTimeout_def clearTimeout_def later_def
          sched0_def)
  from debounce_quiet_period [OF r1]
  have "\<forall>t'. t' < 100 + 500 \<longrightarrow>
          step (Fire 1 t') \<lparr>now = 100, pending = [(1, 600)], next_id = 2, timeout = Some 1, calls = []\<rparr> = None"
    by auto
  then have early: "step (Fire 1 599)
      \<lparr>now = 100, pending = [(1, 600)], next_id = 2, timeout = Some 1, calls = []\<rparr> = None"
    by simp
  from debounce_quiet_period [OF r2]
  have "\<forall>pre i t post. [Input 0, Input 100, Fire 1 600] = pre @ Fire i t # post \<longrightarrow>
          (\<exists>pre' t0. pre = pre' @ [Input t0] \<and> t0 + 500 \<le> t)"
    by blast
  then have "[Input 0, Input 100, Fire 1 600] = [Input 0, Input 100] @ Fire 1 600 # [] \<longrightarrow>
          (\<exists>pre' t0. [Input 0, Input 100] = pre' @ [Input t0] \<and> t0 + 500 \<le> (600::nat))"
    by blast
  then have late: "\<exists>pre' t0. [Input 0, Input 100] = pre' @ [Input t0] \<and> t0 + 500 \<le> (600::nat)"
    by simp
  from r1 r2 early late show ?thesis by blast
qed

end
